theory Spec2Isabelle
  imports Main "HOL-Library.Sublist"
begin

section \<open>JavaScript values\<close>

text \<open>
  The backend (\<^verbatim>\<open>src/unnamed/part_000\<close>) probes untyped data: streaming chunks of
  several shapes, parsed tool results, the client's parsed message. These are modelled
  by a datatype of plain JavaScript data, as \<^verbatim>\<open>JSON.parse\<close> builds it: no functions, no
  symbols, every object with the prototype \<^verbatim>\<open>Object.prototype\<close>. A number is represented by
  its rendering \<^verbatim>\<open>String(n)\<close> (the code only tests numbers for truthiness and prints
  them), strings are lists of 8-bit characters, and an object is the association list
  of its own properties, read with \<open>map_of\<close>.
\<close>

datatype jsval =
    JUndef
  | JNull
  | JBool bool
  | JNum string
  | JStr string
  | JArr "jsval list"
  | JObj "(string \<times> jsval) list"

text \<open>Truthiness, as tested by \<^verbatim>\<open>if (v)\<close>, \<^verbatim>\<open>v && ...\<close>, \<^verbatim>\<open>v || ...\<close> and \<^verbatim>\<open>!v\<close>.\<close>

fun truthy :: "jsval \<Rightarrow> bool" where
  "truthy JUndef = False"
| "truthy JNull = False"
| "truthy (JBool b) = b"
| "truthy (JNum n) = (n \<noteq> ''0'' \<and> n \<noteq> ''NaN'')"
| "truthy (JStr s) = (s \<noteq> [])"
| "truthy (JArr xs) = True"
| "truthy (JObj kvs) = True"

text \<open>\<^verbatim>\<open>a || b\<close>: the first operand when it is truthy, otherwise the second.\<close>

definition js_or :: "jsval \<Rightarrow> jsval \<Rightarrow> jsval" where
  "js_or a b = (if truthy a then a else b)"

text \<open>\<^verbatim>\<open>typeof v === 'string'\<close>. (\<^verbatim>\<open>Array.isArray(v)\<close> is a match on \<open>JArr\<close>.)\<close>

fun is_string :: "jsval \<Rightarrow> bool" where
  "is_string (JStr s) = True"
| "is_string _ = False"

text \<open>
  Property read \<^verbatim>\<open>v.k\<close> for the keys this program reads (\<^verbatim>\<open>content\<close>, \<^verbatim>\<open>text\<close>,
  \<^verbatim>\<open>kwargs\<close>, \<^verbatim>\<open>lc_kwargs\<close>, \<^verbatim>\<open>message\<close>, \<^verbatim>\<open>mapAction\<close>, \<^verbatim>\<open>type\<close>), none of which is
  a built-in property of a string, number, boolean or array. Reading a property of
  \<^verbatim>\<open>undefined\<close> or \<^verbatim>\<open>null\<close> throws a TypeError: the result \<open>None\<close>.
\<close>

fun get_prop :: "string \<Rightarrow> jsval \<Rightarrow> jsval option" where
  "get_prop k JUndef = None"
| "get_prop k JNull = None"
| "get_prop k (JObj kvs) = Some (case map_of kvs k of None \<Rightarrow> JUndef | Some v \<Rightarrow> v)"
| "get_prop k v = Some JUndef"

text \<open>Optional chaining \<^verbatim>\<open>v?.k\<close>: \<^verbatim>\<open>undefined\<close> when \<open>v\<close> is \<^verbatim>\<open>undefined\<close> or \<^verbatim>\<open>null\<close>.\<close>

definition opt_prop :: "string \<Rightarrow> jsval \<Rightarrow> jsval" where
  "opt_prop k v = (case get_prop k v of None \<Rightarrow> JUndef | Some x \<Rightarrow> x)"

subsection \<open>Conversion to string\<close>

text \<open>The decimal digits of a natural number, as \<^verbatim>\<open>Date.now().toString()\<close> prints them.\<close>

definition digit_char :: "nat \<Rightarrow> char" where
  "digit_char d = ''0123456789'' ! (d mod 10)"

fun decimal :: "nat \<Rightarrow> string" where
  "decimal n = (if n < 10 then [digit_char n] else decimal (n div 10) @ [digit_char n])"

fun join_strings :: "string \<Rightarrow> string list \<Rightarrow> string" where
  "join_strings sep [] = []"
| "join_strings sep [s] = s"
| "join_strings sep (s # t # ss) = s @ sep @ join_strings sep (t # ss)"

text \<open>
  \<^verbatim>\<open>String(v)\<close>, the conversion applied by a template literal, by string
  concatenation, by \<^verbatim>\<open>String.prototype.includes\<close> and by \<^verbatim>\<open>Array.prototype.join\<close>.
  An array prints its elements separated by commas, \<^verbatim>\<open>null\<close> and \<^verbatim>\<open>undefined\<close> elements
  as the empty string. A plain object prints as \<^verbatim>\<open>[object Object]\<close> through the
  inherited \<^verbatim>\<open>toString\<close>; when it has an own property \<^verbatim>\<open>toString\<close> (data, so not
  callable) the conversion finds no method that returns a primitive and throws a
  TypeError: the result \<open>None\<close>.
\<close>

fun to_string :: "jsval \<Rightarrow> string option" where
  "to_string JUndef = Some ''undefined''"
| "to_string JNull = Some ''null''"
| "to_string (JBool b) = Some (if b then ''true'' else ''false'')"
| "to_string (JNum n) = Some n"
| "to_string (JStr s) = Some s"
| "to_string (JArr xs) =
     map_option (join_strings '','')
       (those (map (\<lambda>x. case x of JUndef \<Rightarrow> Some [] | JNull \<Rightarrow> Some [] | _ \<Rightarrow> to_string x) xs))"
| "to_string (JObj kvs) =
     (if ''toString'' \<in> fst ` set kvs then None else Some ''[object Object]'')"

text \<open>\<^verbatim>\<open>xs.join(sep)\<close> on an array of values; \<open>None\<close> when the conversion of an element throws.\<close>

definition array_join :: "string \<Rightarrow> jsval list \<Rightarrow> string option" where
  "array_join sep xs =
     map_option (join_strings sep)
       (those (map (\<lambda>x. case x of JUndef \<Rightarrow> Some [] | JNull \<Rightarrow> Some [] | _ \<Rightarrow> to_string x) xs))"

text \<open>\<^verbatim>\<open>s.includes(t)\<close>: \<open>t\<close> occurs in \<open>s\<close> as a contiguous substring.\<close>

definition str_includes :: "string \<Rightarrow> string \<Rightarrow> bool" where
  "str_includes s t = sublist t s"

section \<open>EventNormalizer: \<^verbatim>\<open>extractTextFromChunk\<close>\<close>

text \<open>
  The two mapping functions applied to the parts of an array-valued \<^verbatim>\<open>content\<close>:
  \<^verbatim>\<open>part => typeof part === 'string' ? part : (part?.text || part?.content || '')\<close> for
  \<^verbatim>\<open>chunk.content\<close>, and
  \<^verbatim>\<open>part => part?.text || part?.content || (typeof part === 'string' ? part : '')\<close> for
  \<^verbatim>\<open>chunk.kwargs.content\<close>.
\<close>

definition content_part :: "jsval \<Rightarrow> jsval" where
  "content_part part =
     (if is_string part then part
      else js_or (opt_prop ''text'' part) (js_or (opt_prop ''content'' part) (JStr [])))"

definition kwargs_part :: "jsval \<Rightarrow> jsval" where
  "kwargs_part part =
     js_or (opt_prop ''text'' part)
       (js_or (opt_prop ''content'' part) (if is_string part then part else JStr []))"

text \<open>
  \<^verbatim>\<open>extractTextFromChunk(chunk, eventName)\<close>, lines 210-271. The result \<open>None\<close> is a
  TypeError: the one thrown by \<^verbatim>\<open>'content' in chunk\<close> (an argument of the debug log
  call) when \<open>chunk\<close> is a truthy primitive, or the one thrown by \<^verbatim>\<open>join\<close> on a part that
  does not convert to a string. The branches are in the order of the source; a branch
  that does not return falls through to the next.
\<close>

definition from_message :: "jsval \<Rightarrow> jsval" where
  "from_message chunk =
     (let c = opt_prop ''content'' (opt_prop ''message'' chunk)
      in if truthy c \<and> is_string c then c else JStr [])"

definition from_lc_kwargs :: "jsval \<Rightarrow> jsval" where
  "from_lc_kwargs chunk =
     (let c = opt_prop ''content'' (opt_prop ''lc_kwargs'' chunk)
      in if truthy c \<and> is_string c then c else from_message chunk)"

definition from_kwargs :: "jsval \<Rightarrow> jsval option" where
  "from_kwargs chunk =
     (let c = opt_prop ''content'' (opt_prop ''kwargs'' chunk)
      in if truthy c \<and> is_string c then Some c
         else case c of
           JArr parts \<Rightarrow>
             (if parts \<noteq> [] then map_option JStr (array_join [] (map kwargs_part parts))
              else Some (from_lc_kwargs chunk))
         | _ \<Rightarrow> Some (from_lc_kwargs chunk))"

definition from_text :: "jsval \<Rightarrow> jsval option" where
  "from_text chunk =
     (let t = opt_prop ''text'' chunk in if truthy t then Some t else from_kwargs chunk)"

definition from_content_array :: "jsval \<Rightarrow> jsval option" where
  "from_content_array chunk =
     (case opt_prop ''content'' chunk of
        JArr parts \<Rightarrow>
          (if parts \<noteq> []
           then (case array_join [] (map content_part parts) of
                   None \<Rightarrow> None
                 | Some text \<Rightarrow> if text \<noteq> [] then Some (JStr text) else from_text chunk)
           else from_text chunk)
      | _ \<Rightarrow> from_text chunk)"

definition extractTextFromChunk :: "jsval \<Rightarrow> jsval option" where
  "extractTextFromChunk chunk =
     (if \<not> truthy chunk then Some (JStr [])
      else case chunk of
        JBool b \<Rightarrow> None
      | JNum n \<Rightarrow> None
      | JStr s \<Rightarrow> None
      | _ \<Rightarrow>
        (let c = opt_prop ''content'' chunk
         in if is_string c \<and> truthy c then Some c else from_content_array chunk))"

section \<open>Tool result side payload\<close>

text \<open>
  \<^verbatim>\<open>JSON.parse\<close> belongs to the language runtime, not to the repository: it is a
  parameter of the model, a function from the text to the parsed value, \<open>None\<close> when it
  throws a SyntaxError.
\<close>

type_synonym json_parse = "string \<Rightarrow> jsval option"

text \<open>
  The side-action extraction of the spec (\<^verbatim>\<open>extractSideAction\<close>), which the source
  writes inline at its two call sites (\<^verbatim>\<open>handleToolEnd\<close>, lines 327-337, and the
  \<^verbatim>\<open>on_tool_end\<close> branch, lines 382-388):
  \<^verbatim>\<open>try { const parsed = JSON.parse(output); if (parsed.mapAction) ... } catch (e) {}\<close>.
  The result is the captured \<^verbatim>\<open>parsed.mapAction\<close>, or \<open>None\<close> when nothing is captured:
  the parse threw, \<^verbatim>\<open>parsed\<close> is \<^verbatim>\<open>null\<close> (the property read throws, caught by the same
  \<^verbatim>\<open>catch\<close>), or \<^verbatim>\<open>parsed.mapAction\<close> is falsy.
\<close>

definition extractSideAction :: "json_parse \<Rightarrow> string \<Rightarrow> jsval option" where
  "extractSideAction parse output =
     (case parse output of
        None \<Rightarrow> None
      | Some parsed \<Rightarrow>
          (case get_prop ''mapAction'' parsed of
             None \<Rightarrow> None
           | Some m \<Rightarrow> if truthy m then Some m else None))"

section \<open>Transport and outbound events\<close>

datatype ready_state = CONNECTING | OPEN | CLOSING | CLOSED

text \<open>
  The messages the server writes: \<^verbatim>\<open>{type:"thinking", status}\<close>,
  \<^verbatim>\<open>{type:"stream", content}\<close>, \<^verbatim>\<open>{type:"map_action", mapAction}\<close>,
  \<^verbatim>\<open>{type:"stream_end", content, mapAction}\<close>, \<^verbatim>\<open>{type:"error", content}\<close> (its content
  is one fixed sentence) and the greeting \<^verbatim>\<open>{type:"response", content}\<close> (a fixed text).
  A \<^verbatim>\<open>null\<close> status is \<open>Thinking None\<close>; a \<^verbatim>\<open>null\<close> map action is \<open>JNull\<close>.
\<close>

datatype outbound =
    Thinking "string option"
  | Stream jsval
  | MapAction jsval
  | StreamEnd string jsval
  | Error
  | Response

text \<open>A WebSocket: its \<^verbatim>\<open>readyState\<close> and the messages written to it so far, in order.\<close>

record socket =
  readyState :: ready_state
  sent :: "outbound list"

text \<open>\<^verbatim>\<open>wsSend(ws, data)\<close>, lines 50-54.\<close>

definition wsSend :: "socket \<Rightarrow> outbound \<Rightarrow> socket" where
  "wsSend ws d = (if readyState ws = OPEN then ws\<lparr>sent := sent ws @ [d]\<rparr> else ws)"

section \<open>Session store\<close>

datatype message = HumanMessage string | AIMessage string

text \<open>
  A session object \<^verbatim>\<open>{ chatHistory, ws }\<close>; \<open>ws_handle\<close> names the connection whose
  socket it refers to. The store \<^verbatim>\<open>sessions\<close> is a \<^verbatim>\<open>Map\<close> from session id to session.
\<close>

record session =
  chatHistory :: "message list"
  ws_handle :: nat

type_synonym sessions = "string \<rightharpoonup> session"

text \<open>\<^verbatim>\<open>s.slice(-n)\<close> on a string or an array: the last \<open>n\<close> elements, all of them when fewer.\<close>

definition slice_last :: "nat \<Rightarrow> 'a list \<Rightarrow> 'a list" where
  "slice_last n xs = drop (length xs - n) xs"

text \<open>\<^verbatim>\<open>Date.now().toString().slice(-6)\<close>, line 275; \<open>now\<close> is the clock reading in ms.\<close>

definition sessionId_of :: "nat \<Rightarrow> string" where
  "sessionId_of now = slice_last 6 (decimal now)"

text \<open>
  The connection handler, lines 274-278 and 466-471: it returns the session id that the
  message and close handlers of this connection capture, the socket after the greeting
  and the store after \<^verbatim>\<open>sessions.set\<close>.
\<close>

definition on_connection :: "nat \<Rightarrow> nat \<Rightarrow> socket \<Rightarrow> sessions \<Rightarrow> string \<times> socket \<times> sessions" where
  "on_connection now h ws store =
     (let sessionId = sessionId_of now
      in (sessionId, wsSend ws Response,
          store(sessionId \<mapsto> \<lparr>chatHistory = [], ws_handle = h\<rparr>)))"

text \<open>The close handler, lines 461-464.\<close>

definition on_close :: "string \<Rightarrow> sessions \<Rightarrow> sessions" where
  "on_close sessionId store = store(sessionId := None)"

section \<open>One turn of the orchestrator\<close>

text \<open>
  The local variables of a turn (\<^verbatim>\<open>fullResponse\<close>, \<^verbatim>\<open>mapAction\<close>, \<^verbatim>\<open>toolsUsed\<close>,
  \<^verbatim>\<open>streamStarted\<close>, lines 298-301) together with the two pieces of shared state the
  turn can touch while it runs: the connection's socket and the session store.
\<close>

record turn =
  fullResponse :: string
  mapAction :: jsval
  toolsUsed :: "string list"
  streamStarted :: bool
  sock :: socket
  store :: sessions

text \<open>
  The items of the event feed (\<^verbatim>\<open>agent.streamEvents\<close>, version v2), decoded by the
  fields the loop reads: \<^verbatim>\<open>event.event\<close> selects the constructor; \<^verbatim>\<open>OnToolStart\<close> carries
  \<^verbatim>\<open>event.name\<close>, \<^verbatim>\<open>OnToolEnd\<close> carries \<^verbatim>\<open>event.data?.output\<close> (a text, \<open>None\<close> when
  undefined), \<^verbatim>\<open>OnChatModelStream\<close> carries \<^verbatim>\<open>event.data?.chunk\<close>, \<^verbatim>\<open>OnChainEnd\<close> carries
  \<^verbatim>\<open>event.name\<close> and \<^verbatim>\<open>event.data?.output?.output\<close> (a text, \<open>None\<close> when undefined).
  Any other event type is \<open>OtherEvent\<close>; the loop ignores it.
\<close>

datatype stream_event =
    OnToolStart string
  | OnToolEnd "string option"
  | OnChatModelStream jsval
  | OnChainEnd string "string option"
  | OtherEvent string

text \<open>
  What happens, one after the other, while the turn runs. The runtime is single
  threaded, so the callbacks of the agent, the items of its event feed and the close
  event of the socket interleave as a sequence:
  \<^item> \<open>HandleLLMNewToken token\<close>, \<open>HandleToolStart name\<close> (\<^verbatim>\<open>tool.name\<close>) and
    \<open>HandleToolEnd output\<close>: the agent calls a callback;
  \<^item> \<open>StreamEvent e\<close>: the \<^verbatim>\<open>for await\<close> loop receives the item \<open>e\<close>;
  \<^item> \<open>AgentThrows\<close>: \<^verbatim>\<open>createAgent\<close>, \<^verbatim>\<open>streamEvents\<close> or the feed throws;
  \<^item> \<open>ClientCloses\<close>: the client disconnects; the socket becomes \<^verbatim>\<open>CLOSED\<close> and the
    close handler of the connection runs.
\<close>

datatype agent_step =
    HandleLLMNewToken string
  | HandleToolStart string
  | HandleToolEnd string
  | StreamEvent stream_event
  | AgentThrows
  | ClientCloses

text \<open>\<^verbatim>\<open>toolName.replace(/_/g, " ")\<close> inside the status text of lines 321-324 and 372-375.\<close>

definition using_status :: "string \<Rightarrow> string" where
  "using_status toolName =
     ''Using '' @ map (\<lambda>c. if c = CHR ''_'' then CHR '' '' else c) toolName @ ''...''"

text \<open>
  Lines 308-314 and 402-408: mark the stream as started, accumulate, forward. \<open>text\<close> is
  the fragment and \<open>s\<close> its conversion to a string, which \<^verbatim>\<open>+=\<close> appends.
\<close>

definition forward :: "jsval \<Rightarrow> string \<Rightarrow> turn \<Rightarrow> turn" where
  "forward text s t =
     (let t1 = (if \<not> streamStarted t
                then t\<lparr>streamStarted := True, sock := wsSend (sock t) (Thinking None)\<rparr>
                else t);
          t2 = t1\<lparr>fullResponse := fullResponse t1 @ s\<rparr>
      in t2\<lparr>sock := wsSend (sock t2) (Stream text)\<rparr>)"

text \<open>\<^verbatim>\<open>handleLLMNewToken(token)\<close>, lines 306-316.\<close>

definition handleLLMNewToken :: "string \<Rightarrow> turn \<Rightarrow> turn" where
  "handleLLMNewToken token t = (if token \<noteq> [] then forward (JStr token) token t else t)"

text \<open>\<^verbatim>\<open>handleToolStart(tool, input)\<close>, lines 317-325.\<close>

definition handleToolStart :: "string \<Rightarrow> turn \<Rightarrow> turn" where
  "handleToolStart toolName t =
     (let t1 = t\<lparr>toolsUsed := toolsUsed t @ [toolName]\<rparr>
      in t1\<lparr>sock := wsSend (sock t1) (Thinking (Some (using_status toolName)))\<rparr>)"

text \<open>
  Lines 329-334 and 383-388: capture the map action and send it at once. Between the
  assignment and the send, the log line prints \<^verbatim>\<open>mapAction.type\<close> in a template
  literal; when that conversion throws, the surrounding \<^verbatim>\<open>catch\<close> swallows the error
  and the send is skipped.
\<close>

definition capture :: "jsval option \<Rightarrow> turn \<Rightarrow> turn" where
  "capture found t =
     (case found of
        None \<Rightarrow> t
      | Some m \<Rightarrow>
          (let t1 = t\<lparr>mapAction := m\<rparr>
           in case to_string (opt_prop ''type'' m) of
                None \<Rightarrow> t1
              | Some _ \<Rightarrow> t1\<lparr>sock := wsSend (sock t1) (MapAction m)\<rparr>))"

text \<open>\<^verbatim>\<open>handleToolEnd(output)\<close>, lines 326-339.\<close>

definition handleToolEnd :: "json_parse \<Rightarrow> string \<Rightarrow> turn \<Rightarrow> turn" where
  "handleToolEnd parse output t =
     (let t1 = capture (extractSideAction parse output) t
      in t1\<lparr>sock := wsSend (sock t1) (Thinking (Some ''Generating response...''))\<rparr>)"

text \<open>
  The body of the \<^verbatim>\<open>for await\<close> loop for one item, lines 355-420. The result \<open>None\<close> is
  an exception leaving the loop: \<^verbatim>\<open>extractTextFromChunk\<close> throws, or
  \<^verbatim>\<open>fullResponse.includes(text)\<close> throws converting \<open>text\<close> to a string.
\<close>

fun on_event :: "json_parse \<Rightarrow> stream_event \<Rightarrow> turn \<Rightarrow> turn option" where
  "on_event parse (OnToolStart toolName) t =
     Some (if toolName \<notin> set (toolsUsed t) then handleToolStart toolName t else t)"
| "on_event parse (OnToolEnd toolOutput) t =
     Some (if \<not> truthy (mapAction t)
           then (let t1 = (case toolOutput of
                             None \<Rightarrow> t
                           | Some out \<Rightarrow>
                               if out \<noteq> [] then capture (extractSideAction parse out) t else t)
                 in t1\<lparr>sock := wsSend (sock t1) (Thinking (Some ''Generating response...''))\<rparr>)
           else t)"
| "on_event parse (OnChatModelStream chunk) t =
     (case extractTextFromChunk chunk of
        None \<Rightarrow> None
      | Some text \<Rightarrow>
          if \<not> truthy text then Some t
          else (case to_string text of
                  None \<Rightarrow> None
                | Some s \<Rightarrow> Some (if \<not> str_includes (fullResponse t) s then forward text s t else t)))"
| "on_event parse (OnChainEnd nm output) t =
     Some (if nm = ''AgentExecutor''
           then (case output of
                   None \<Rightarrow> t
                 | Some out \<Rightarrow>
                     if out \<noteq> [] \<and> \<not> streamStarted t then t\<lparr>fullResponse := out\<rparr> else t)
           else t)"
| "on_event parse (OtherEvent ty) t = Some t"

text \<open>One step of the turn; \<open>None\<close> is an exception on its way to the turn's \<^verbatim>\<open>catch\<close>.\<close>

fun step :: "json_parse \<Rightarrow> string \<Rightarrow> agent_step \<Rightarrow> turn \<Rightarrow> turn option" where
  "step parse sessionId (HandleLLMNewToken token) t = Some (handleLLMNewToken token t)"
| "step parse sessionId (HandleToolStart toolName) t = Some (handleToolStart toolName t)"
| "step parse sessionId (HandleToolEnd output) t = Some (handleToolEnd parse output t)"
| "step parse sessionId (StreamEvent e) t = on_event parse e t"
| "step parse sessionId AgentThrows t = None"
| "step parse sessionId ClientCloses t =
     Some (t\<lparr>sock := (sock t)\<lparr>readyState := CLOSED\<rparr>,
             store := on_close sessionId (store t)\<rparr>)"

text \<open>
  Driving the agent, lines 344-420: \<open>Inr\<close> is the state when the feed is exhausted,
  \<open>Inl\<close> the state at the moment an exception leaves the \<^verbatim>\<open>try\<close> block.
\<close>

fun drive :: "json_parse \<Rightarrow> string \<Rightarrow> agent_step list \<Rightarrow> turn \<Rightarrow> turn + turn" where
  "drive parse sessionId [] t = Inr t"
| "drive parse sessionId (s # ss) t =
     (case step parse sessionId s t of
        None \<Rightarrow> Inl t
      | Some t' \<Rightarrow> drive parse sessionId ss t')"


section \<open>The message handler\<close>

text \<open>
  \<^verbatim>\<open>s.trim()\<close>: whitespace and line terminators removed at both ends (those among the
  8-bit characters: tab, line feed, vertical tab, form feed, carriage return, space
  and no-break space).
\<close>

definition is_space :: "char \<Rightarrow> bool" where
  "is_space c = (c \<in> set [CHR 0x09, CHR 0x0A, CHR 0x0B, CHR 0x0C, CHR 0x0D, CHR 0x20, CHR 0xA0])"

definition trim :: "string \<Rightarrow> string" where
  "trim s = rev (dropWhile is_space (rev (dropWhile is_space s)))"

text \<open>
  Lines 433-435: \<^verbatim>\<open>if (userMessage?.trim()) session.chatHistory.push(new HumanMessage(userMessage))\<close>.
  The optional call returns \<^verbatim>\<open>undefined\<close> for a missing or \<^verbatim>\<open>null\<close> message; for a value
  that is neither that nor a string, \<^verbatim>\<open>trim\<close> is not a function and the call throws: \<open>None\<close>.
\<close>

fun push_user :: "jsval \<Rightarrow> message list \<Rightarrow> message list option" where
  "push_user JUndef h = Some h"
| "push_user JNull h = Some h"
| "push_user (JStr s) h = Some (if trim s \<noteq> [] then h @ [HumanMessage s] else h)"
| "push_user v h = None"

text \<open>Lines 436-438.\<close>

definition push_assistant :: "string \<Rightarrow> message list \<Rightarrow> message list" where
  "push_assistant response h = (if trim response \<noteq> [] then h @ [AIMessage response] else h)"

text \<open>Lines 440-443: \<^verbatim>\<open>if (length > 20) chatHistory = chatHistory.slice(-20)\<close>.\<close>

definition keep_manageable :: "message list \<Rightarrow> message list" where
  "keep_manageable h = (if length h > 20 then slice_last 20 h else h)"

text \<open>The history update of a completed turn, lines 432-443.\<close>

definition update_history :: "jsval \<Rightarrow> string \<Rightarrow> message list \<Rightarrow> message list option" where
  "update_history userMessage response h =
     (case push_user userMessage h of
        None \<Rightarrow> None
      | Some h1 \<Rightarrow> Some (keep_manageable (push_assistant response h1)))"

text \<open>
  The \<^verbatim>\<open>chat\<close> branch of the message handler, lines 286-454, for the connection with
  session id \<open>sessionId\<close>; \<open>c\<close> is the connection's socket and the session store, and
  \<open>steps\<close> is what the agent and the client do while the turn runs. \<open>start_turn\<close> is
  lines 290-301: the first status and the fresh local variables.
  \<^item> \<^verbatim>\<open>session\<close> was read from the store before (line 283). When the store has no entry,
    \<^verbatim>\<open>session.chatHistory\<close> (line 347) throws inside the \<^verbatim>\<open>try\<close> and nothing is driven.
  \<^item> The history update mutates the session object in place. A turn is modelled as
    running with no other handler in between, except the close handler of its own
    connection: the only change of the store while a turn runs is the removal of this
    connection's entry by \<open>ClientCloses\<close>; the object then is no longer reachable
    from the store, and the store stays without it.
\<close>

definition start_turn :: "socket \<times> sessions \<Rightarrow> turn" where
  "start_turn c =
     \<lparr>fullResponse = [], mapAction = JNull, toolsUsed = [], streamStarted = False,
      sock = wsSend (fst c) (Thinking (Some ''Thinking...'')), store = snd c\<rparr>"

definition chat_turn ::
  "json_parse \<Rightarrow> string \<Rightarrow> jsval \<Rightarrow> agent_step list \<Rightarrow> socket \<times> sessions \<Rightarrow> socket \<times> sessions" where
  "chat_turn parse sessionId userMessage steps c =
     (let r = (case snd c sessionId of
                 None \<Rightarrow> Inl (start_turn c)
               | Some session \<Rightarrow>
                   (case drive parse sessionId steps (start_turn c) of
                      Inl t \<Rightarrow> Inl t
                    | Inr t \<Rightarrow>
                        (let t1 = t\<lparr>sock := wsSend (sock t)
                                              (StreamEnd (fullResponse t) (mapAction t))\<rparr>
                         in case update_history userMessage (fullResponse t) (chatHistory session) of
                              None \<Rightarrow> Inl t1
                            | Some h \<Rightarrow> Inr (t1, session\<lparr>chatHistory := h\<rparr>))));
          c1 = (case r of
                  Inl t \<Rightarrow> (wsSend (sock t) Error, store t)
                | Inr (t, session') \<Rightarrow>
                    (sock t, (case store t sessionId of
                                None \<Rightarrow> store t
                              | Some _ \<Rightarrow> (store t)(sessionId \<mapsto> session'))))
      in (wsSend (fst c1) (Thinking None), snd c1))"

text \<open>
  The message handler, lines 280-459. \<open>data\<close> is the text of the frame. A frame that
  does not parse, a parsed value without properties (\<^verbatim>\<open>message.type\<close> throws) and a
  message of another type leave everything as it is. So does a chat message whose
  content does not convert to a string: the log line 287 prints it in a template
  literal, before the first status is sent, and the outer \<^verbatim>\<open>catch\<close> only logs.
\<close>

definition on_message ::
  "json_parse \<Rightarrow> string \<Rightarrow> string \<Rightarrow> agent_step list \<Rightarrow> socket \<times> sessions \<Rightarrow> socket \<times> sessions" where
  "on_message parse sessionId data steps c =
     (case parse data of
        None \<Rightarrow> c
      | Some msg \<Rightarrow>
          (case get_prop ''type'' msg of
             None \<Rightarrow> c
           | Some ty \<Rightarrow>
               if ty = JStr ''chat''
               then (case to_string (opt_prop ''content'' msg) of
                       None \<Rightarrow> c
                     | Some _ \<Rightarrow> chat_turn parse sessionId (opt_prop ''content'' msg) steps c)
               else c))"

section \<open>ToolBridge: \<^verbatim>\<open>jsonSchemaToZod\<close>\<close>

text \<open>
  A property of a tool's input schema, by the fields the translation reads:
  \<^verbatim>\<open>prop.type\<close> (any value), \<^verbatim>\<open>prop.enum\<close> (a list of strings, \<open>None\<close> when absent) and
  \<^verbatim>\<open>prop.description\<close> (\<open>None\<close> when absent). The schema has \<^verbatim>\<open>properties\<close>, in the order
  of \<^verbatim>\<open>Object.entries\<close>, and \<^verbatim>\<open>required\<close>, each \<open>None\<close> when absent.
\<close>

record schema_prop =
  p_type :: jsval
  p_enum :: "string list option"
  p_description :: "string option"

record json_schema =
  properties :: "(string \<times> schema_prop) list option"
  required :: "string list option"

text \<open>The validators built with the \<^verbatim>\<open>zod\<close> library.\<close>

datatype zod =
    ZString
  | ZEnum "string list"
  | ZNumber
  | ZBoolean
  | ZAny
  | ZDescribe zod string
  | ZOptional zod
  | ZObject "(string \<times> zod) list"

text \<open>The \<^verbatim>\<open>switch (prop.type)\<close> of lines 133-145.\<close>

definition zod_base :: "schema_prop \<Rightarrow> zod" where
  "zod_base p =
     (if p_type p = JStr ''string''
      then (case p_enum p of Some vs \<Rightarrow> ZEnum vs | None \<Rightarrow> ZString)
      else if p_type p = JStr ''number'' then ZNumber
      else if p_type p = JStr ''boolean'' then ZBoolean
      else ZAny)"

text \<open>The body of the loop, lines 132-155, for one entry \<^verbatim>\<open>[key, prop]\<close>.\<close>

definition zod_prop :: "string list \<Rightarrow> string \<Rightarrow> schema_prop \<Rightarrow> zod" where
  "zod_prop req key p =
     (let z1 = zod_base p;
          z2 = (case p_description p of
                  None \<Rightarrow> z1
                | Some d \<Rightarrow> if d \<noteq> [] then ZDescribe z1 d else z1)
      in if key \<notin> set req then ZOptional z2 else z2)"

text \<open>
  The assignment \<^verbatim>\<open>zodProps[key] = zodType\<close> of line 155 on the plain object
  \<^verbatim>\<open>zodProps = {}\<close> of line 130. For the key \<^verbatim>\<open>__proto__\<close> it runs the setter inherited
  from \<^verbatim>\<open>Object.prototype\<close>, which replaces the prototype of \<^verbatim>\<open>zodProps\<close> and stores no
  own property; every other key becomes a field. (The keys of \<^verbatim>\<open>Object.entries\<close> are
  distinct, so no assignment overwrites an earlier one.)
\<close>

definition assign_field :: "(string \<times> zod) list \<Rightarrow> string \<Rightarrow> zod \<Rightarrow> (string \<times> zod) list" where
  "assign_field zodProps key z = (if key = ''__proto__'' then zodProps else zodProps @ [(key, z)])"

text \<open>
  \<^verbatim>\<open>jsonSchemaToZod(jsonSchema)\<close>, lines 126-159: the loop over \<^verbatim>\<open>Object.entries\<close>, then
  \<^verbatim>\<open>z.object(zodProps)\<close> over the own properties of \<^verbatim>\<open>zodProps\<close>.
\<close>

fun zod_fields ::
  "string list \<Rightarrow> (string \<times> schema_prop) list \<Rightarrow> (string \<times> zod) list \<Rightarrow> (string \<times> zod) list" where
  "zod_fields req [] zodProps = zodProps"
| "zod_fields req ((key, p) # entries) zodProps =
     zod_fields req entries (assign_field zodProps key (zod_prop req key p))"

definition jsonSchemaToZod :: "json_schema \<Rightarrow> zod" where
  "jsonSchemaToZod jsonSchema =
     (let props = (case properties jsonSchema of None \<Rightarrow> [] | Some ps \<Rightarrow> ps);
          req = (case required jsonSchema of None \<Rightarrow> [] | Some r \<Rightarrow> r)
      in ZObject (zod_fields req props []))"

section \<open>Observations used in the statements\<close>

subsection \<open>Validators\<close>

text \<open>The validator under its \<^verbatim>\<open>describe\<close> and \<^verbatim>\<open>optional\<close> wrappers, and whether it is optional.\<close>

fun zod_core :: "zod \<Rightarrow> zod" where
  "zod_core (ZDescribe z d) = zod_core z"
| "zod_core (ZOptional z) = zod_core z"
| "zod_core z = z"

fun is_optional :: "zod \<Rightarrow> bool" where
  "is_optional (ZOptional z) = True"
| "is_optional z = False"

text \<open>The primitive types the \<^verbatim>\<open>switch\<close> of \<^verbatim>\<open>jsonSchemaToZod\<close> has a case for.\<close>

definition recognized_types :: "jsval set" where
  "recognized_types = {JStr ''string'', JStr ''number'', JStr ''boolean''}"

text \<open>
  A schema in the style of the tool server's descriptors (\<^verbatim>\<open>src/unnamed/part_002\<close>), and
  one with a required, enumerated string parameter named \<^verbatim>\<open>__proto__\<close>.
\<close>

definition example_props :: "(string \<times> schema_prop) list" where
  "example_props =
     [(''lat'', \<lparr>p_type = JStr ''number'', p_enum = None,
                 p_description = Some ''Latitude of the center point''\<rparr>),
      (''mode'', \<lparr>p_type = JStr ''string'', p_enum = Some [''driving'', ''walking'', ''cycling''],
                  p_description = Some ''Travel mode''\<rparr>),
      (''limit'', \<lparr>p_type = JStr ''integer'', p_enum = None, p_description = None\<rparr>)]"

definition example_schema :: json_schema where
  "example_schema = \<lparr>properties = Some example_props, required = Some [''lat'', ''mode'']\<rparr>"

definition proto_schema :: json_schema where
  "proto_schema =
     \<lparr>properties = Some
        [(''query'', \<lparr>p_type = JStr ''string'', p_enum = None, p_description = None\<rparr>),
         (''__proto__'', \<lparr>p_type = JStr ''string'', p_enum = Some [''north'', ''south''],
                         p_description = None\<rparr>)],
      required = Some [''query'', ''__proto__'']\<rparr>"

subsection \<open>Outbound events\<close>

text \<open>
  The texts of the \<^verbatim>\<open>stream\<close> events, as the client appends them to what it shows, and
  the payloads of the \<^verbatim>\<open>map_action\<close> events.
\<close>

fun stream_texts :: "outbound list \<Rightarrow> string list" where
  "stream_texts [] = []"
| "stream_texts (Stream v # es) = (case to_string v of None \<Rightarrow> [] | Some s \<Rightarrow> s) # stream_texts es"
| "stream_texts (e # es) = stream_texts es"

fun map_actions :: "outbound list \<Rightarrow> jsval list" where
  "map_actions [] = []"
| "map_actions (MapAction m # es) = m # map_actions es"
| "map_actions (e # es) = map_actions es"

text \<open>The state in which driving the agent ended, by return or by exception.\<close>

definition final_state :: "turn + turn \<Rightarrow> turn" where
  "final_state r = (case r of Inl t \<Rightarrow> t | Inr t \<Rightarrow> t)"

subsection \<open>Sample documents\<close>

text \<open>
  Tool results as the tool server writes them (\<^verbatim>\<open>JSON.stringify({ result, mapAction })\<close>,
  \<^verbatim>\<open>src/unnamed/part_002\<close>), a result whose action carries a tag the client has no case
  for, and a chat frame as the client sends it.
\<close>

definition markers_doc :: string where
  \<open>markers_doc = ''{"result":[],"mapAction":{"type":"SHOW_MARKERS","markers":[],"fitBounds":true}}''\<close>

definition route_doc :: string where
  \<open>route_doc = ''{"result":{},"mapAction":{"type":"SHOW_ROUTE","route":[]}}''\<close>

definition unknown_tag_doc :: string where
  \<open>unknown_tag_doc = ''{"result":[],"mapAction":{"type":"FLY_TO"}}''\<close>

definition no_action_doc :: string where
  \<open>no_action_doc = ''{"result":[],"mapAction":null}''\<close>

definition chat_frame :: string where
  \<open>chat_frame = ''{"type":"chat","content":"Find cafes near Times Square"}''\<close>

definition markers_action :: jsval where
  "markers_action =
     JObj [(''type'', JStr ''SHOW_MARKERS''), (''markers'', JArr []), (''fitBounds'', JBool True)]"

definition route_action :: jsval where
  "route_action = JObj [(''type'', JStr ''SHOW_ROUTE''), (''route'', JArr [])]"

definition unknown_action :: jsval where
  "unknown_action = JObj [(''type'', JStr ''FLY_TO'')]"

text \<open>
  \<^verbatim>\<open>JSON.parse\<close> on the sample documents. Every other text is taken as not parsing; the
  closed statements below apply it to the samples and to \<^verbatim>\<open>Service unavailable\<close>, which
  is not JSON.
\<close>

definition json_parse_sample :: json_parse where
  "json_parse_sample s =
     (if s = markers_doc then Some (JObj [(''result'', JArr []), (''mapAction'', markers_action)])
      else if s = route_doc then Some (JObj [(''result'', JObj []), (''mapAction'', route_action)])
      else if s = unknown_tag_doc
        then Some (JObj [(''result'', JArr []), (''mapAction'', unknown_action)])
      else if s = no_action_doc then Some (JObj [(''result'', JArr []), (''mapAction'', JNull)])
      else if s = chat_frame
        then Some (JObj [(''type'', JStr ''chat''),
                         (''content'', JStr ''Find cafes near Times Square'')])
      else None)"

text \<open>
  The tags the client acts on: the cases of the \<^verbatim>\<open>switch (action.type)\<close> in
  \<^verbatim>\<open>handleMapAction\<close> (\<^verbatim>\<open>src/frontend/src/App.jsx\<close>); it has no default case.
\<close>

definition recognized_tag :: "jsval \<Rightarrow> bool" where
  "recognized_tag action =
     (opt_prop ''type'' action \<in> {JStr ''SHOW_MARKERS'', JStr ''SHOW_ROUTE'', JStr ''CENTER''})"

text \<open>An open socket with nothing written yet, and a store holding one fresh session.\<close>

definition open_socket :: socket where
  "open_socket = \<lparr>readyState = OPEN, sent = []\<rparr>"

definition one_session :: "string \<Rightarrow> sessions" where
  "one_session sessionId = Map.empty(sessionId \<mapsto> \<lparr>chatHistory = [], ws_handle = 0\<rparr>)"

subsection \<open>Progress of a turn\<close>

text \<open>The text of the \<^verbatim>\<open>stream_end\<close> event among the events, \<open>None\<close> when there is none.\<close>

fun final_text :: "outbound list \<Rightarrow> string option" where
  "final_text [] = None"
| "final_text (StreamEnd s a # es) = (case final_text es of None \<Rightarrow> Some s | Some x \<Rightarrow> Some x)"
| "final_text (e # es) = final_text es"

text \<open>The map action carried by the \<^verbatim>\<open>stream_end\<close> event.\<close>

fun final_action :: "outbound list \<Rightarrow> jsval option" where
  "final_action [] = None"
| "final_action (StreamEnd s a # es) = (case final_action es of None \<Rightarrow> Some a | Some x \<Rightarrow> Some x)"
| "final_action (e # es) = final_action es"

text \<open>
  The events written between an earlier state \<open>t\<close> of a turn and a later state \<open>t'\<close>;
  \<open>extends t t'\<close> says that the socket of \<open>t'\<close> holds those of \<open>t\<close> followed by them.
\<close>

definition turn_events :: "turn \<Rightarrow> turn \<Rightarrow> outbound list" where
  "turn_events t t' = drop (length (sent (sock t))) (sent (sock t'))"

definition extends :: "turn \<Rightarrow> turn \<Rightarrow> bool" where
  "extends t t' \<longleftrightarrow> sent (sock t') = sent (sock t) @ turn_events t t'"

text \<open>
  \<open>proceeds t t'\<close>: the turn went from \<open>t\<close> to \<open>t'\<close> on an open socket, with the store
  untouched, without an \<^verbatim>\<open>error\<close> or \<^verbatim>\<open>stream_end\<close> event, and with one
  \<^verbatim>\<open>{type:"thinking", status:null}\<close> exactly when streaming started in between, which
  is also exactly when a \<^verbatim>\<open>stream\<close> event was written after a state not yet streaming.
\<close>

definition proceeds :: "turn \<Rightarrow> turn \<Rightarrow> bool" where
  "proceeds t t' \<longleftrightarrow>
     readyState (sock t') = OPEN \<and> store t' = store t \<and> extends t t' \<and>
     count_list (turn_events t t') Error = 0 \<and>
     final_text (turn_events t t') = None \<and>
     count_list (turn_events t t') (Thinking None) =
       (if streamStarted t' \<and> \<not> streamStarted t then 1 else 0) \<and>
     (streamStarted t \<longrightarrow> streamStarted t') \<and>
     (\<not> streamStarted t' \<longrightarrow> stream_texts (turn_events t t') = []) \<and>
     (streamStarted t' \<and> \<not> streamStarted t \<longrightarrow> stream_texts (turn_events t t') \<noteq> [])"

text \<open>The feed item that ends the run of the agent executor, and the answer it carries.\<close>

fun is_executor_end :: "agent_step \<Rightarrow> bool" where
  "is_executor_end (StreamEvent (OnChainEnd nm output)) = (nm = ''AgentExecutor'')"
| "is_executor_end s = False"

fun final_answer :: "agent_step list \<Rightarrow> string" where
  "final_answer [] = []"
| "final_answer [StreamEvent (OnChainEnd nm (Some out))] = (if nm = ''AgentExecutor'' then out else [])"
| "final_answer [s] = []"
| "final_answer (s # ss) = final_answer ss"

text \<open>The \<^verbatim>\<open>map_action\<close> event written by \<open>capture\<close>, if any.\<close>

definition captured_events :: "jsval option \<Rightarrow> outbound list" where
  "captured_events found =
     (case found of
        None \<Rightarrow> []
      | Some m \<Rightarrow> (case to_string (opt_prop ''type'' m) of None \<Rightarrow> [] | Some _ \<Rightarrow> [MapAction m]))"

text \<open>
  Whether an exception reaches the \<^verbatim>\<open>catch\<close> of the turn (lines 445-451): the session is
  missing from the store, driving the agent throws, or the history update throws.
\<close>

definition turn_throws ::
  "json_parse \<Rightarrow> string \<Rightarrow> jsval \<Rightarrow> agent_step list \<Rightarrow> socket \<times> sessions \<Rightarrow> bool" where
  "turn_throws parse sessionId userMessage steps c =
     (case snd c sessionId of
        None \<Rightarrow> True
      | Some session \<Rightarrow>
          (case drive parse sessionId steps (start_turn c) of
             Inl t \<Rightarrow> True
           | Inr t \<Rightarrow> update_history userMessage (fullResponse t) (chatHistory session) = None))"

text \<open>The session id and the connection state used in the closed statements.\<close>

definition sid0 :: string where
  "sid0 = ''123456''"

definition conn0 :: "socket \<times> sessions" where
  "conn0 = (open_socket, one_session sid0)"

subsection \<open>Chunk shapes and deliveries\<close>

text \<open>
  The chunk shapes \<^verbatim>\<open>extractTextFromChunk\<close> has a branch for, each with the text it
  carries: \<^verbatim>\<open>{content: s}\<close>, \<^verbatim>\<open>{content: [parts]}\<close>, \<^verbatim>\<open>{text: s}\<close>, \<^verbatim>\<open>{kwargs: {content: s}}\<close>,
  \<^verbatim>\<open>{kwargs: {content: [parts]}}\<close>, \<^verbatim>\<open>{lc_kwargs: {content: s}}\<close> and
  \<^verbatim>\<open>{message: {content: s}}\<close>. A part is a string, \<^verbatim>\<open>{text: s}\<close> or \<^verbatim>\<open>{content: s}\<close>.
\<close>

datatype part = PString string | PText string | PContent string

fun part_value :: "part \<Rightarrow> jsval" where
  "part_value (PString s) = JStr s"
| "part_value (PText s) = JObj [(''text'', JStr s)]"
| "part_value (PContent s) = JObj [(''content'', JStr s)]"

fun part_text :: "part \<Rightarrow> string" where
  "part_text (PString s) = s"
| "part_text (PText s) = s"
| "part_text (PContent s) = s"

datatype chunk_shape =
    ContentString string
  | ContentParts "part list"
  | TextField string
  | KwargsString string
  | KwargsParts "part list"
  | LcKwargsString string
  | MessageString string

fun chunk_of :: "chunk_shape \<Rightarrow> jsval" where
  "chunk_of (ContentString s) = JObj [(''content'', JStr s)]"
| "chunk_of (ContentParts ps) = JObj [(''content'', JArr (map part_value ps))]"
| "chunk_of (TextField s) = JObj [(''text'', JStr s)]"
| "chunk_of (KwargsString s) = JObj [(''kwargs'', JObj [(''content'', JStr s)])]"
| "chunk_of (KwargsParts ps) = JObj [(''kwargs'', JObj [(''content'', JArr (map part_value ps))])]"
| "chunk_of (LcKwargsString s) = JObj [(''lc_kwargs'', JObj [(''content'', JStr s)])]"
| "chunk_of (MessageString s) = JObj [(''message'', JObj [(''content'', JStr s)])]"

fun text_of :: "chunk_shape \<Rightarrow> string" where
  "text_of (ContentString s) = s"
| "text_of (ContentParts ps) = concat (map part_text ps)"
| "text_of (TextField s) = s"
| "text_of (KwargsString s) = s"
| "text_of (KwargsParts ps) = concat (map part_text ps)"
| "text_of (LcKwargsString s) = s"
| "text_of (MessageString s) = s"

text \<open>
  How one fragment of the model's output reaches the turn: through the token callback
  only, through the event feed only (in some chunk shape), or through the callback and
  then, replayed, through the feed.
\<close>

datatype delivery = Direct string | Replayed chunk_shape | Both chunk_shape

fun delivery_text :: "delivery \<Rightarrow> string" where
  "delivery_text (Direct s) = s"
| "delivery_text (Replayed sh) = text_of sh"
| "delivery_text (Both sh) = text_of sh"

fun delivery_steps :: "delivery \<Rightarrow> agent_step list" where
  "delivery_steps (Direct s) = [HandleLLMNewToken s]"
| "delivery_steps (Replayed sh) = [StreamEvent (OnChatModelStream (chunk_of sh))]"
| "delivery_steps (Both sh) =
     [HandleLLMNewToken (text_of sh), StreamEvent (OnChatModelStream (chunk_of sh))]"

text \<open>
  \<open>no_repeat acc ds\<close>: no non-empty fragment that arrives through the feed only occurs
  already in the text accumulated before it, \<open>acc\<close> being the text accumulated before
  the first delivery.
\<close>

fun no_repeat :: "string \<Rightarrow> delivery list \<Rightarrow> bool" where
  "no_repeat acc [] = True"
| "no_repeat acc (Replayed sh # ds) =
     ((text_of sh = [] \<or> \<not> str_includes acc (text_of sh)) \<and> no_repeat (acc @ text_of sh) ds)"
| "no_repeat acc (d # ds) = no_repeat (acc @ delivery_text d) ds"

text \<open>
  A reply that arrives through the event feed only, word by word, and a reply whose
  fragments arrive in the three ways.
\<close>

definition to_be :: "delivery list" where
  "to_be = map (\<lambda>s. Replayed (ContentString s)) [''to '', ''be '', ''or '', ''not '', ''to '', ''be'']"

definition three_cafes :: "delivery list" where
  "three_cafes =
     [Both (ContentString ''Here ''),
      Replayed (ContentParts [PString ''are '', PText ''three '']),
      Direct ''cafes.'']"

text \<open>
  A turn with two tool calls, each reported through its callbacks and through the event
  feed, each result carrying a map action; then the reply.
\<close>

definition two_tool_calls :: "agent_step list" where
  "two_tool_calls =
     [HandleToolStart ''search_places'', StreamEvent (OnToolStart ''search_places''),
      HandleToolEnd markers_doc, StreamEvent (OnToolEnd (Some markers_doc)),
      HandleToolStart ''get_directions'', StreamEvent (OnToolStart ''get_directions''),
      HandleToolEnd route_doc, StreamEvent (OnToolEnd (Some route_doc)),
      HandleLLMNewToken ''Done.'',
      StreamEvent (OnChatModelStream (JObj [(''content'', JStr ''Done.'')])),
      StreamEvent (OnChainEnd ''AgentExecutor'' (Some ''Done.''))]"

subsection \<open>A run of turns on one connection\<close>

text \<open>
  The entries a message appends to the history of its session (lines 433-438): none
  unless the message is a chat message whose turn completes; then the user's message
  when it is not blank, followed by the response when it is not blank.
\<close>

definition turn_entries ::
  "json_parse \<Rightarrow> string \<Rightarrow> jsval \<Rightarrow> agent_step list \<Rightarrow> socket \<times> sessions \<Rightarrow> message list" where
  "turn_entries parse sessionId userMessage steps c =
     (case drive parse sessionId steps (start_turn c) of
        Inl t \<Rightarrow> []
      | Inr t \<Rightarrow>
          (case push_user userMessage [] of
             None \<Rightarrow> []
           | Some es \<Rightarrow> push_assistant (fullResponse t) es))"

definition message_entries ::
  "json_parse \<Rightarrow> string \<Rightarrow> string \<Rightarrow> agent_step list \<Rightarrow> socket \<times> sessions \<Rightarrow> message list" where
  "message_entries parse sessionId data steps c =
     (case parse data of
        None \<Rightarrow> []
      | Some msg \<Rightarrow>
          (case get_prop ''type'' msg of
             None \<Rightarrow> []
           | Some ty \<Rightarrow>
               if ty = JStr ''chat''
               then (case to_string (opt_prop ''content'' msg) of
                       None \<Rightarrow> []
                     | Some _ \<Rightarrow> turn_entries parse sessionId (opt_prop ''content'' msg) steps c)
               else []))"

text \<open>
  The messages of one connection handled one after the other, each with what the agent
  does during its turn, and all the entries they append, in order.
\<close>

fun run_turns ::
  "json_parse \<Rightarrow> string \<Rightarrow> (string \<times> agent_step list) list \<Rightarrow> socket \<times> sessions \<Rightarrow> socket \<times> sessions" where
  "run_turns parse sessionId [] c = c"
| "run_turns parse sessionId ((data, steps) # rest) c =
     run_turns parse sessionId rest (on_message parse sessionId data steps c)"

fun run_entries ::
  "json_parse \<Rightarrow> string \<Rightarrow> (string \<times> agent_step list) list \<Rightarrow> socket \<times> sessions \<Rightarrow> message list" where
  "run_entries parse sessionId [] c = []"
| "run_entries parse sessionId ((data, steps) # rest) c =
     message_entries parse sessionId data steps c
       @ run_entries parse sessionId rest (on_message parse sessionId data steps c)"

text \<open>Eleven exchanges, each answered without streaming.\<close>

definition eleven_turns :: "(string \<times> agent_step list) list" where
  "eleven_turns =
     replicate 11 (chat_frame, [StreamEvent (OnChainEnd ''AgentExecutor'' (Some ''Here they are.''))])"

section \<open>Tool schema translation\<close>

lemma zod_core_base: "zod_core (zod_base p) = zod_base p"
  by (simp add: zod_base_def split: option.splits)

lemma zod_core_prop: "zod_core (zod_prop req key p) = zod_base p"
  by (simp add: zod_prop_def Let_def zod_core_base split: option.splits)

lemma is_optional_base: "\<not> is_optional (zod_base p)"
  by (simp add: zod_base_def split: option.splits)

lemma is_optional_prop: "is_optional (zod_prop req key p) \<longleftrightarrow> key \<notin> set req"
  by (simp add: zod_prop_def Let_def is_optional_base split: option.splits)

lemma zod_fields_eq:
  "zod_fields req entries acc =
     acc @ map (\<lambda>(key, p). (key, zod_prop req key p)) (filter (\<lambda>(key, p). key \<noteq> ''__proto__'') entries)"
  by (induction req entries acc rule: zod_fields.induct) (simp_all add: assign_field_def)

text \<open>
  For a parameter with any name but \<^verbatim>\<open>__proto__\<close>, the field built by \<^verbatim>\<open>jsonSchemaToZod\<close>
  is \<^verbatim>\<open>any\<close> when the type is none of \<^verbatim>\<open>string\<close>, \<^verbatim>\<open>number\<close>, \<^verbatim>\<open>boolean\<close>, the enumeration of
  the listed values for a string with an \<^verbatim>\<open>enum\<close>, and optional exactly when the name is
  not in \<^verbatim>\<open>required\<close>.
\<close>

lemma jsonSchemaToZod_other_keys:
  assumes "properties js = Some props" and "(key, p) \<in> set props" and "key \<noteq> ''__proto__''"
  shows "\<exists>fields z. jsonSchemaToZod js = ZObject fields \<and> (key, z) \<in> set fields \<and>
           (p_type p \<notin> recognized_types \<longrightarrow> zod_core z = ZAny) \<and>
           (\<forall>vs. p_type p = JStr ''string'' \<and> p_enum p = Some vs \<longrightarrow> zod_core z = ZEnum vs) \<and>
           (is_optional z \<longleftrightarrow> key \<notin> set (case required js of None \<Rightarrow> [] | Some r \<Rightarrow> r))"
proof -
  let ?req = "case required js of None \<Rightarrow> [] | Some r \<Rightarrow> r"
  let ?fields = "zod_fields ?req props []"
  let ?z = "zod_prop ?req key p"
  have 1: "jsonSchemaToZod js = ZObject ?fields"
    using assms(1) by (simp add: jsonSchemaToZod_def)
  have 2: "(key, ?z) \<in> set ?fields"
    using assms(2,3) by (force simp: zod_fields_eq)
  have 3: "p_type p \<notin> recognized_types \<longrightarrow> zod_core ?z = ZAny"
    by (simp add: zod_core_prop zod_base_def recognized_types_def)
  have 4: "\<forall>vs. p_type p = JStr ''string'' \<and> p_enum p = Some vs \<longrightarrow> zod_core ?z = ZEnum vs"
    by (simp add: zod_core_prop zod_base_def)
  have 5: "is_optional ?z \<longleftrightarrow> key \<notin> set ?req"
    by (rule is_optional_prop)
  show ?thesis
    using 1 2 3 4 5 by blast
qed

lemma example_schema_fields:
  "jsonSchemaToZod example_schema =
     ZObject [(''lat'', ZDescribe ZNumber ''Latitude of the center point''),
              (''mode'', ZDescribe (ZEnum [''driving'', ''walking'', ''cycling'']) ''Travel mode''),
              (''limit'', ZOptional ZAny)]"
  by (simp add: jsonSchemaToZod_def example_schema_def example_props_def zod_prop_def
      zod_base_def assign_field_def)

text \<open>
  Claim C10, at the schema \<open>proto_schema\<close>. Its parameter \<^verbatim>\<open>__proto__\<close> is a required string
  with an \<^verbatim>\<open>enum\<close>, yet the validator built has the single field \<^verbatim>\<open>query\<close>: the parameter
  is not constrained to its literal set and not required, because the assignment of
  line 155 stores nothing under that name.
\<close>

theorem jsonSchemaToZod_proto_key_dropped:
  "jsonSchemaToZod proto_schema = ZObject [(''query'', ZString)]"
  by (simp add: jsonSchemaToZod_def proto_schema_def zod_prop_def zod_base_def assign_field_def)

section \<open>Progress of a turn on an open socket\<close>

lemma extendsI: "sent (sock t') = sent (sock t) @ es \<Longrightarrow> extends t t'"
  by (simp add: extends_def turn_events_def)

lemma turn_events_eq: "sent (sock t') = sent (sock t) @ es \<Longrightarrow> turn_events t t' = es"
  by (simp add: turn_events_def)

lemma extends_refl: "extends t t"
  by (simp add: extends_def turn_events_def)

lemma turn_events_refl: "turn_events t t = []"
  by (simp add: turn_events_def)

lemma extends_trans:
  assumes "extends t t'" and "extends t' t''"
  shows "extends t t''" and "turn_events t t'' = turn_events t t' @ turn_events t' t''"
proof -
  have "sent (sock t'') = sent (sock t) @ (turn_events t t' @ turn_events t' t'')"
    using assms by (simp add: extends_def)
  then show "extends t t''" and "turn_events t t'' = turn_events t t' @ turn_events t' t''"
    by (auto intro: extendsI turn_events_eq)
qed

lemma stream_texts_append: "stream_texts (xs @ ys) = stream_texts xs @ stream_texts ys"
  by (induction xs rule: stream_texts.induct) simp_all

lemma final_text_append:
  "final_text (xs @ ys) = (case final_text ys of None \<Rightarrow> final_text xs | Some x \<Rightarrow> Some x)"
  by (induction xs rule: final_text.induct) (simp_all split: option.splits)

lemma proceeds_refl: "readyState (sock t) = OPEN \<Longrightarrow> proceeds t t"
  by (simp add: proceeds_def extends_refl turn_events_refl)

lemma proceeds_trans:
  assumes "proceeds t t'" and "proceeds t' t''"
  shows "proceeds t t''"
proof -
  have a: "extends t t'" "extends t' t''"
    using assms by (simp_all add: proceeds_def)
  note e = extends_trans[OF a]
  let ?e1 = "turn_events t t'" and ?e2 = "turn_events t' t''"
  have 1: "readyState (sock t'') = OPEN" "store t'' = store t"
    using assms by (simp_all add: proceeds_def)
  have 2: "count_list (?e1 @ ?e2) Error = 0"
    using assms by (simp add: proceeds_def)
  have 3: "final_text (?e1 @ ?e2) = None"
    using assms by (simp add: proceeds_def final_text_append)
  have m: "streamStarted t \<longrightarrow> streamStarted t'" "streamStarted t' \<longrightarrow> streamStarted t''"
    using assms by (simp_all add: proceeds_def)
  have c1: "count_list ?e1 (Thinking None) = (if streamStarted t' \<and> \<not> streamStarted t then 1 else 0)"
    and c2: "count_list ?e2 (Thinking None) = (if streamStarted t'' \<and> \<not> streamStarted t' then 1 else 0)"
    using assms by (simp_all add: proceeds_def)
  have 4: "count_list (?e1 @ ?e2) (Thinking None) =
             (if streamStarted t'' \<and> \<not> streamStarted t then 1 else 0)"
    using c1 c2 m by (cases "streamStarted t"; cases "streamStarted t'"; cases "streamStarted t''") simp_all
  have s1: "\<not> streamStarted t' \<longrightarrow> stream_texts ?e1 = []"
    and s2: "\<not> streamStarted t'' \<longrightarrow> stream_texts ?e2 = []"
    and s3: "streamStarted t' \<and> \<not> streamStarted t \<longrightarrow> stream_texts ?e1 \<noteq> []"
    and s4: "streamStarted t'' \<and> \<not> streamStarted t' \<longrightarrow> stream_texts ?e2 \<noteq> []"
    using assms by (simp_all add: proceeds_def)
  have 5: "\<not> streamStarted t'' \<longrightarrow> stream_texts (?e1 @ ?e2) = []"
    using s1 s2 m by (auto simp: stream_texts_append)
  have 6: "streamStarted t'' \<and> \<not> streamStarted t \<longrightarrow> stream_texts (?e1 @ ?e2) \<noteq> []"
    using s3 s4 by (cases "streamStarted t'") (auto simp: stream_texts_append)
  show ?thesis
    unfolding proceeds_def e(2) using 1 2 3 4 5 6 m e(1) by simp
qed

lemma proceedsI:
  assumes "readyState (sock t') = OPEN" and "store t' = store t"
    and "sent (sock t') = sent (sock t) @ es"
    and "count_list es Error = 0" and "final_text es = None"
    and "count_list es (Thinking None) = (if streamStarted t' \<and> \<not> streamStarted t then 1 else 0)"
    and "streamStarted t \<longrightarrow> streamStarted t'"
    and "\<not> streamStarted t' \<longrightarrow> stream_texts es = []"
    and "streamStarted t' \<and> \<not> streamStarted t \<longrightarrow> stream_texts es \<noteq> []"
  shows "proceeds t t'"
  unfolding proceeds_def turn_events_eq[OF assms(3)]
  using assms extendsI[OF assms(3)] by simp

text \<open>Effects of the handlers on an open socket.\<close>

lemma forward_open:
  assumes "readyState (sock t) = OPEN"
  shows "sent (sock (forward text s t)) =
           sent (sock t) @ (if streamStarted t then [] else [Thinking None]) @ [Stream text]"
    and "readyState (sock (forward text s t)) = OPEN"
    and "streamStarted (forward text s t)"
    and "fullResponse (forward text s t) = fullResponse t @ s"
    and "store (forward text s t) = store t"
    and "mapAction (forward text s t) = mapAction t"
  using assms by (simp_all add: forward_def wsSend_def Let_def)

lemma handleToolStart_open:
  assumes "readyState (sock t) = OPEN"
  shows "sent (sock (handleToolStart nm t)) = sent (sock t) @ [Thinking (Some (using_status nm))]"
    and "readyState (sock (handleToolStart nm t)) = OPEN"
    and "streamStarted (handleToolStart nm t) = streamStarted t"
    and "fullResponse (handleToolStart nm t) = fullResponse t"
    and "store (handleToolStart nm t) = store t"
    and "mapAction (handleToolStart nm t) = mapAction t"
  using assms by (simp_all add: handleToolStart_def wsSend_def Let_def)

lemma captured_events_plain:
  "count_list (captured_events found) Error = 0"
  "final_text (captured_events found) = None"
  "count_list (captured_events found) (Thinking None) = 0"
  "stream_texts (captured_events found) = []"
  by (simp_all add: captured_events_def split: option.splits)

lemma capture_open:
  assumes "readyState (sock t) = OPEN"
  shows "sent (sock (capture found t)) = sent (sock t) @ captured_events found"
    and "readyState (sock (capture found t)) = OPEN"
    and "streamStarted (capture found t) = streamStarted t"
    and "fullResponse (capture found t) = fullResponse t"
    and "store (capture found t) = store t"
  using assms by (simp_all add: capture_def captured_events_def wsSend_def Let_def split: option.splits)

lemma handleToolEnd_open:
  assumes "readyState (sock t) = OPEN"
  shows "sent (sock (handleToolEnd parse out t)) =
           sent (sock t) @ captured_events (extractSideAction parse out)
             @ [Thinking (Some ''Generating response...'')]"
    and "readyState (sock (handleToolEnd parse out t)) = OPEN"
    and "streamStarted (handleToolEnd parse out t) = streamStarted t"
    and "fullResponse (handleToolEnd parse out t) = fullResponse t"
    and "store (handleToolEnd parse out t) = store t"
  using assms by (simp_all add: handleToolEnd_def wsSend_def Let_def capture_open)

lemma forward_proceeds: "readyState (sock t) = OPEN \<Longrightarrow> proceeds t (forward text s t)"
  by (rule proceedsI[where es = "(if streamStarted t then [] else [Thinking None]) @ [Stream text]"])
     (simp_all add: forward_open)

lemma handleToolStart_proceeds: "readyState (sock t) = OPEN \<Longrightarrow> proceeds t (handleToolStart nm t)"
  by (rule proceedsI[where es = "[Thinking (Some (using_status nm))]"])
     (simp_all add: handleToolStart_open)

lemma handleToolEnd_proceeds:
  "readyState (sock t) = OPEN \<Longrightarrow> proceeds t (handleToolEnd parse out t)"
  by (rule proceedsI[where es = "captured_events (extractSideAction parse out)
             @ [Thinking (Some ''Generating response...'')]"])
     (simp_all add: handleToolEnd_open captured_events_plain stream_texts_append final_text_append)

lemma on_tool_end_proceeds:
  assumes "readyState (sock t) = OPEN" and "on_event parse (OnToolEnd out) t = Some t'"
  shows "proceeds t t'"
proof (cases "truthy (mapAction t)")
  case True
  then show ?thesis using assms by (simp add: proceeds_refl)
next
  case False
  define found where
    "found = (case out of None \<Rightarrow> None | Some x \<Rightarrow> if x \<noteq> [] then extractSideAction parse x else None)"
  have c: "(case out of None \<Rightarrow> t | Some x \<Rightarrow> if x \<noteq> [] then capture (extractSideAction parse x) t else t)
             = capture found t"
    by (simp add: found_def capture_def split: option.splits)
  have t': "t' = (capture found t)\<lparr>sock := wsSend (sock (capture found t))
                 (Thinking (Some ''Generating response...''))\<rparr>"
    using assms(2) False unfolding on_event.simps c by (simp add: Let_def)
  show ?thesis
    by (rule proceedsI[where es = "captured_events found @ [Thinking (Some ''Generating response...'')]"])
       (simp_all add: t' wsSend_def capture_open assms(1) captured_events_plain
          stream_texts_append final_text_append)
qed

lemma on_stream_proceeds:
  assumes "readyState (sock t) = OPEN" and "on_event parse (OnChatModelStream chunk) t = Some t'"
  shows "proceeds t t'"
proof -
  from assms(2) have "t' = t \<or> (\<exists>text s. t' = forward text s t)"
    by (auto split: option.splits if_splits)
  then show ?thesis
    using assms(1) proceeds_refl forward_proceeds by auto
qed

lemma set_fullResponse_proceeds:
  "readyState (sock t) = OPEN \<Longrightarrow> proceeds t (t\<lparr>fullResponse := x\<rparr>)"
  by (rule proceedsI[where es = "[]"]) simp_all

lemma on_chain_end_proceeds:
  assumes "readyState (sock t) = OPEN" and "on_event parse (OnChainEnd nm out) t = Some t'"
  shows "proceeds t t'"
proof -
  from assms(2) have "t' = t \<or> (\<exists>x. t' = t\<lparr>fullResponse := x\<rparr>)"
    by (auto split: option.splits if_splits)
  then show ?thesis
    using assms(1) proceeds_refl set_fullResponse_proceeds by auto
qed

lemma on_event_proceeds:
  assumes "readyState (sock t) = OPEN" and "on_event parse e t = Some t'"
  shows "proceeds t t'"
proof (cases e)
  case (OnToolStart nm)
  then have "t' = t \<or> t' = handleToolStart nm t"
    using assms(2) by (auto split: if_splits)
  then show ?thesis using assms(1) proceeds_refl handleToolStart_proceeds by auto
next
  case (OnToolEnd out)
  then show ?thesis using assms on_tool_end_proceeds by blast
next
  case (OnChatModelStream chunk)
  then show ?thesis using assms on_stream_proceeds by blast
next
  case (OnChainEnd nm out)
  then show ?thesis using assms on_chain_end_proceeds by blast
next
  case (OtherEvent ty)
  then show ?thesis using assms by (simp add: proceeds_refl)
qed

lemma step_proceeds:
  assumes "readyState (sock t) = OPEN" and "step parse sid s t = Some t'" and "s \<noteq> ClientCloses"
  shows "proceeds t t'"
proof (cases s)
  case (HandleLLMNewToken token)
  then have "t' = t \<or> t' = forward (JStr token) token t"
    using assms(2) by (auto simp: handleLLMNewToken_def split: if_splits)
  then show ?thesis using assms(1) proceeds_refl forward_proceeds by auto
next
  case (HandleToolStart nm)
  then show ?thesis using assms by (auto simp: handleToolStart_proceeds)
next
  case (HandleToolEnd out)
  then show ?thesis using assms by (auto simp: handleToolEnd_proceeds)
next
  case (StreamEvent e)
  then show ?thesis using assms on_event_proceeds by auto
next
  case AgentThrows
  then show ?thesis using assms by simp
next
  case ClientCloses
  then show ?thesis using assms by simp
qed

lemma drive_proceeds:
  assumes "readyState (sock t) = OPEN" and "ClientCloses \<notin> set steps"
  shows "proceeds t (final_state (drive parse sid steps t))"
  using assms
proof (induction steps arbitrary: t)
  case Nil
  then show ?case by (simp add: final_state_def proceeds_refl)
next
  case (Cons s ss)
  show ?case
  proof (cases "step parse sid s t")
    case None
    then show ?thesis using Cons.prems by (simp add: final_state_def proceeds_refl)
  next
    case (Some t')
    have p: "proceeds t t'"
      using step_proceeds[OF Cons.prems(1) Some] Cons.prems(2) by auto
    then have "readyState (sock t') = OPEN" by (simp add: proceeds_def)
    then have "proceeds t' (final_state (drive parse sid ss t'))"
      using Cons.IH Cons.prems(2) by simp
    then show ?thesis using p Some proceeds_trans by simp
  qed
qed

section \<open>How a chat turn ends\<close>

lemma start_turn_open:
  assumes "readyState (fst c) = OPEN"
  shows "sent (sock (start_turn c)) = sent (fst c) @ [Thinking (Some ''Thinking...'')]"
    and "readyState (sock (start_turn c)) = OPEN"
    and "store (start_turn c) = snd c"
    and "\<not> streamStarted (start_turn c)"
    and "fullResponse (start_turn c) = []"
    and "mapAction (start_turn c) = JNull"
  using assms by (simp_all add: start_turn_def wsSend_def)

text \<open>The three ways a chat turn ends, on a socket that stays open.\<close>

lemma chat_turn_drive_throws:
  assumes "readyState (fst c) = OPEN" and "ClientCloses \<notin> set steps"
    and "snd c sid = Some session" and "drive parse sid steps (start_turn c) = Inl t"
  shows "sent (fst (chat_turn parse sid um steps c)) =
           sent (fst c) @ Thinking (Some ''Thinking...'') # turn_events (start_turn c) t
             @ [Error, Thinking None]"
    and "snd (chat_turn parse sid um steps c) = snd c"
    and "readyState (fst (chat_turn parse sid um steps c)) = OPEN"
proof -
  have p: "proceeds (start_turn c) t"
    using drive_proceeds[OF start_turn_open(2)[OF assms(1)] assms(2), of parse sid] assms(4)
    by (simp add: final_state_def)
  then have s: "sent (sock t) = sent (fst c) @ Thinking (Some ''Thinking...'') # turn_events (start_turn c) t"
    and o: "readyState (sock t) = OPEN" and st: "store t = snd c"
    by (simp_all add: proceeds_def extends_def start_turn_open[OF assms(1)])
  have r: "chat_turn parse sid um steps c = (wsSend (wsSend (sock t) Error) (Thinking None), store t)"
    using assms(3,4) by (simp add: chat_turn_def)
  show "sent (fst (chat_turn parse sid um steps c)) =
           sent (fst c) @ Thinking (Some ''Thinking...'') # turn_events (start_turn c) t
             @ [Error, Thinking None]"
    and "snd (chat_turn parse sid um steps c) = snd c"
    and "readyState (fst (chat_turn parse sid um steps c)) = OPEN"
    using s o st by (simp_all add: r wsSend_def)
qed

lemma chat_turn_no_session:
  assumes "readyState (fst c) = OPEN" and "snd c sid = None"
  shows "sent (fst (chat_turn parse sid um steps c)) =
           sent (fst c) @ [Thinking (Some ''Thinking...''), Error, Thinking None]"
    and "snd (chat_turn parse sid um steps c) = snd c"
    and "readyState (fst (chat_turn parse sid um steps c)) = OPEN"
  using assms by (simp_all add: chat_turn_def start_turn_def wsSend_def)

lemma chat_turn_history_throws:
  assumes "readyState (fst c) = OPEN" and "ClientCloses \<notin> set steps"
    and "snd c sid = Some session" and "drive parse sid steps (start_turn c) = Inr t"
    and "update_history um (fullResponse t) (chatHistory session) = None"
  shows "sent (fst (chat_turn parse sid um steps c)) =
           sent (fst c) @ Thinking (Some ''Thinking...'') # turn_events (start_turn c) t
             @ [StreamEnd (fullResponse t) (mapAction t), Error, Thinking None]"
    and "snd (chat_turn parse sid um steps c) = snd c"
    and "readyState (fst (chat_turn parse sid um steps c)) = OPEN"
proof -
  have p: "proceeds (start_turn c) t"
    using drive_proceeds[OF start_turn_open(2)[OF assms(1)] assms(2), of parse sid] assms(4)
    by (simp add: final_state_def)
  then have s: "sent (sock t) = sent (fst c) @ Thinking (Some ''Thinking...'') # turn_events (start_turn c) t"
    and o: "readyState (sock t) = OPEN" and st: "store t = snd c"
    by (simp_all add: proceeds_def extends_def start_turn_open[OF assms(1)])
  have r: "chat_turn parse sid um steps c =
      (wsSend (wsSend (wsSend (sock t) (StreamEnd (fullResponse t) (mapAction t))) Error) (Thinking None), store t)"
    using assms(3,4,5) by (simp add: chat_turn_def)
  show "sent (fst (chat_turn parse sid um steps c)) =
           sent (fst c) @ Thinking (Some ''Thinking...'') # turn_events (start_turn c) t
             @ [StreamEnd (fullResponse t) (mapAction t), Error, Thinking None]"
    and "snd (chat_turn parse sid um steps c) = snd c"
    and "readyState (fst (chat_turn parse sid um steps c)) = OPEN"
    using s o st by (simp_all add: r wsSend_def)
qed

lemma chat_turn_completes:
  assumes "readyState (fst c) = OPEN" and "ClientCloses \<notin> set steps"
    and "snd c sid = Some session" and "drive parse sid steps (start_turn c) = Inr t"
    and "update_history um (fullResponse t) (chatHistory session) = Some h"
  shows "sent (fst (chat_turn parse sid um steps c)) =
           sent (fst c) @ Thinking (Some ''Thinking...'') # turn_events (start_turn c) t
             @ [StreamEnd (fullResponse t) (mapAction t), Thinking None]"
    and "snd (chat_turn parse sid um steps c) = (snd c)(sid \<mapsto> session\<lparr>chatHistory := h\<rparr>)"
    and "readyState (fst (chat_turn parse sid um steps c)) = OPEN"
proof -
  have p: "proceeds (start_turn c) t"
    using drive_proceeds[OF start_turn_open(2)[OF assms(1)] assms(2), of parse sid] assms(4)
    by (simp add: final_state_def)
  then have s: "sent (sock t) = sent (fst c) @ Thinking (Some ''Thinking...'') # turn_events (start_turn c) t"
    and o: "readyState (sock t) = OPEN" and st: "store t = snd c"
    by (simp_all add: proceeds_def extends_def start_turn_open[OF assms(1)])
  have r: "chat_turn parse sid um steps c =
      (wsSend (wsSend (sock t) (StreamEnd (fullResponse t) (mapAction t))) (Thinking None),
       (store t)(sid \<mapsto> session\<lparr>chatHistory := h\<rparr>))"
    using assms(3,4,5) st by (simp add: chat_turn_def)
  show "sent (fst (chat_turn parse sid um steps c)) =
           sent (fst c) @ Thinking (Some ''Thinking...'') # turn_events (start_turn c) t
             @ [StreamEnd (fullResponse t) (mapAction t), Thinking None]"
    and "snd (chat_turn parse sid um steps c) = (snd c)(sid \<mapsto> session\<lparr>chatHistory := h\<rparr>)"
    and "readyState (fst (chat_turn parse sid um steps c)) = OPEN"
    using s o st by (simp_all add: r wsSend_def)
qed

lemma drive_facts:
  assumes "readyState (fst c) = OPEN" and "ClientCloses \<notin> set steps"
    and "t = final_state (drive parse sid steps (start_turn c))"
  shows "count_list (turn_events (start_turn c) t) Error = 0"
    and "final_text (turn_events (start_turn c) t) = None"
    and "count_list (turn_events (start_turn c) t) (Thinking None) =
           (if stream_texts (turn_events (start_turn c) t) = [] then 0 else 1)"
proof -
  have p: "proceeds (start_turn c) t"
    using drive_proceeds[OF start_turn_open(2)[OF assms(1)] assms(2), of parse sid] assms(3)
    by simp
  show "count_list (turn_events (start_turn c) t) Error = 0"
    and "final_text (turn_events (start_turn c) t) = None"
    using p by (simp_all add: proceeds_def)
  show "count_list (turn_events (start_turn c) t) (Thinking None) =
           (if stream_texts (turn_events (start_turn c) t) = [] then 0 else 1)"
    using p start_turn_open(4)[OF assms(1)] by (cases "streamStarted t") (simp_all add: proceeds_def)
qed

section \<open>The accumulated response\<close>

lemma drive_append:
  "drive parse sid (xs @ ys) t =
     (case drive parse sid xs t of Inl t' \<Rightarrow> Inl t' | Inr t' \<Rightarrow> drive parse sid ys t')"
  by (induction xs arbitrary: t) (simp_all split: option.splits)

lemma drive_snoc_Inr:
  assumes "drive parse sid (xs @ [s]) t = Inr t'"
  shows "\<exists>t1. drive parse sid xs t = Inr t1 \<and> step parse sid s t1 = Some t'"
  using assms by (auto simp: drive_append split: sum.splits option.splits)

lemma forward_accumulates:
  assumes "readyState (sock t) = OPEN" and "to_string text = Some s"
  shows "fullResponse (forward text s t) =
           fullResponse t @ concat (stream_texts (turn_events t (forward text s t)))"
proof -
  have "turn_events t (forward text s t) =
          (if streamStarted t then [] else [Thinking None]) @ [Stream text]"
    by (rule turn_events_eq) (simp add: forward_open[OF assms(1)])
  then show ?thesis
    using assms by (simp add: forward_open stream_texts_append)
qed

lemma quiet_accumulates:
  assumes "sent (sock t') = sent (sock t) @ es" and "stream_texts es = []"
    and "fullResponse t' = fullResponse t"
  shows "fullResponse t' = fullResponse t @ concat (stream_texts (turn_events t t'))"
  using assms turn_events_eq[OF assms(1)] by simp

lemma on_event_accumulates:
  assumes "readyState (sock t) = OPEN" and "on_event parse e t = Some t'"
    and "\<not> is_executor_end (StreamEvent e)"
  shows "fullResponse t' = fullResponse t @ concat (stream_texts (turn_events t t'))"
proof (cases e)
  case (OnToolStart nm)
  then have "t' = t \<or> t' = handleToolStart nm t"
    using assms(2) by (auto split: if_splits)
  then show ?thesis
  proof
    assume "t' = t" then show ?thesis by (simp add: turn_events_refl)
  next
    assume "t' = handleToolStart nm t"
    then show ?thesis
      using quiet_accumulates[of t' t "[Thinking (Some (using_status nm))]"]
      by (simp add: handleToolStart_open[OF assms(1)])
  qed
next
  case (OnToolEnd out)
  show ?thesis
  proof (cases "truthy (mapAction t)")
    case True
    then show ?thesis using assms(2) OnToolEnd by (simp add: turn_events_refl)
  next
    case False
    define found where
      "found = (case out of None \<Rightarrow> None | Some x \<Rightarrow> if x \<noteq> [] then extractSideAction parse x else None)"
    have c: "(case out of None \<Rightarrow> t | Some x \<Rightarrow> if x \<noteq> [] then capture (extractSideAction parse x) t else t)
               = capture found t"
      by (simp add: found_def capture_def split: option.splits)
    have t': "t' = (capture found t)\<lparr>sock := wsSend (sock (capture found t))
                   (Thinking (Some ''Generating response...''))\<rparr>"
      using assms(2) False unfolding OnToolEnd on_event.simps c by (simp add: Let_def)
    show ?thesis
      by (rule quiet_accumulates[where es = "captured_events found @ [Thinking (Some ''Generating response...'')]"])
         (simp_all add: t' wsSend_def capture_open assms(1) captured_events_plain stream_texts_append)
  qed
next
  case (OnChatModelStream chunk)
  then have "t' = t \<or> (\<exists>text s. to_string text = Some s \<and> t' = forward text s t)"
    using assms(2) by (auto split: option.splits if_splits)
  then show ?thesis
    using forward_accumulates[OF assms(1)] by (auto simp: turn_events_refl)
next
  case (OnChainEnd nm out)
  then have "t' = t"
    using assms(2,3) by simp
  then show ?thesis by (simp add: turn_events_refl)
next
  case (OtherEvent ty)
  then show ?thesis using assms by (simp add: turn_events_refl)
qed

lemma step_accumulates:
  assumes "readyState (sock t) = OPEN" and "step parse sid s t = Some t'"
    and "s \<noteq> ClientCloses" and "\<not> is_executor_end s"
  shows "fullResponse t' = fullResponse t @ concat (stream_texts (turn_events t t'))"
proof (cases s)
  case (HandleLLMNewToken token)
  then have "t' = t \<or> t' = forward (JStr token) token t"
    using assms(2) by (auto simp: handleLLMNewToken_def split: if_splits)
  then show ?thesis
    using forward_accumulates[OF assms(1), of "JStr token" token] by (auto simp: turn_events_refl)
next
  case (HandleToolStart nm)
  then have "t' = handleToolStart nm t" using assms(2) by simp
  then show ?thesis
    using quiet_accumulates[of t' t "[Thinking (Some (using_status nm))]"]
    by (simp add: handleToolStart_open[OF assms(1)])
next
  case (HandleToolEnd out)
  then have "t' = handleToolEnd parse out t" using assms(2) by simp
  then show ?thesis
    using quiet_accumulates[of t' t "captured_events (extractSideAction parse out)
             @ [Thinking (Some ''Generating response...'')]"]
    by (simp add: handleToolEnd_open[OF assms(1)] captured_events_plain stream_texts_append)
next
  case (StreamEvent e)
  then show ?thesis using assms on_event_accumulates by auto
next
  case AgentThrows
  then show ?thesis using assms by simp
next
  case ClientCloses
  then show ?thesis using assms by simp
qed

lemma drive_accumulates:
  assumes "readyState (sock t) = OPEN" and "ClientCloses \<notin> set steps"
    and "list_all (\<lambda>s. \<not> is_executor_end s) steps"
    and "t' = final_state (drive parse sid steps t)"
  shows "fullResponse t' = fullResponse t @ concat (stream_texts (turn_events t t'))"
  using assms
proof (induction steps arbitrary: t)
  case Nil
  then show ?case by (simp add: final_state_def turn_events_refl)
next
  case (Cons s ss)
  show ?case
  proof (cases "step parse sid s t")
    case None
    then show ?thesis using Cons.prems by (simp add: final_state_def turn_events_refl)
  next
    case (Some t1)
    have ns: "s \<noteq> ClientCloses" "\<not> is_executor_end s"
      using Cons.prems(2,3) by auto
    have p1: "proceeds t t1"
      using step_proceeds[OF Cons.prems(1) Some ns(1)] .
    then have o1: "readyState (sock t1) = OPEN" by (simp add: proceeds_def)
    have t': "t' = final_state (drive parse sid ss t1)"
      using Cons.prems(4) Some by simp
    have p2: "proceeds t1 t'"
      unfolding t' using drive_proceeds[OF o1] Cons.prems(2) by simp
    have e: "turn_events t t' = turn_events t t1 @ turn_events t1 t'"
      using extends_trans(2) p1 p2 by (simp add: proceeds_def)
    have a1: "fullResponse t1 = fullResponse t @ concat (stream_texts (turn_events t t1))"
      using step_accumulates[OF Cons.prems(1) Some ns] .
    have a2: "fullResponse t' = fullResponse t1 @ concat (stream_texts (turn_events t1 t'))"
      using Cons.IH[OF o1 _ _ t'] Cons.prems(2,3) by simp
    show ?thesis
      by (simp add: a1 a2 e stream_texts_append)
  qed
qed

lemma final_answer_snoc: "final_answer (xs @ [s]) = final_answer [s]"
  by (induction xs rule: final_answer.induct) simp_all

lemma final_answer_other: "\<not> is_executor_end s \<Longrightarrow> final_answer [s] = []"
  by (cases "[s]" rule: final_answer.cases) auto

section \<open>Extraction from the chunk shapes\<close>

lemma join_strings_empty: "join_strings [] ss = concat ss"
  by (induction "[]::string" ss rule: join_strings.induct) simp_all

lemma content_part_value: "content_part (part_value p) = JStr (part_text p)"
  by (cases p) (simp_all add: content_part_def js_or_def opt_prop_def)

lemma kwargs_part_value: "kwargs_part (part_value p) = JStr (part_text p)"
  by (cases p) (simp_all add: kwargs_part_def js_or_def opt_prop_def)

lemma join_strings_empty_fun: "join_strings [] = concat"
  by (rule ext) (rule join_strings_empty)

lemma array_join_Nil: "array_join [] [] = Some []"
  by (simp add: array_join_def)

lemma array_join_Cons: "array_join [] (JStr s # vs) = map_option ((@) s) (array_join [] vs)"
  by (simp add: array_join_def join_strings_empty_fun option.map_comp comp_def)

lemma array_join_texts:
  assumes "\<And>x. f x = JStr (g x)"
  shows "array_join [] (map f xs) = Some (concat (map g xs))"
  by (induction xs) (simp_all add: array_join_Nil array_join_Cons assms)

lemma array_join_content_parts:
  "array_join [] (map (content_part \<circ> part_value) ps) = Some (concat (map part_text ps))"
  by (rule array_join_texts) (simp add: content_part_value)

lemma array_join_kwargs_parts:
  "array_join [] (map (kwargs_part \<circ> part_value) ps) = Some (concat (map part_text ps))"
  by (rule array_join_texts) (simp add: kwargs_part_value)

lemma extract_chunk_of: "extractTextFromChunk (chunk_of sh) = Some (JStr (text_of sh))"
proof (cases sh)
  case (ContentString s)
  then show ?thesis
    by (simp add: extractTextFromChunk_def from_content_array_def from_text_def from_kwargs_def
        from_lc_kwargs_def from_message_def opt_prop_def Let_def)
next
  case (ContentParts ps)
  then show ?thesis
    by (simp add: extractTextFromChunk_def from_content_array_def from_text_def from_kwargs_def
        from_lc_kwargs_def from_message_def opt_prop_def Let_def array_join_content_parts)
next
  case (TextField s)
  then show ?thesis
    by (simp add: extractTextFromChunk_def from_content_array_def from_text_def from_kwargs_def
        from_lc_kwargs_def from_message_def opt_prop_def Let_def)
next
  case (KwargsString s)
  then show ?thesis
    by (simp add: extractTextFromChunk_def from_content_array_def from_text_def from_kwargs_def
        from_lc_kwargs_def from_message_def opt_prop_def Let_def)
next
  case (KwargsParts ps)
  then show ?thesis
    by (simp add: extractTextFromChunk_def from_content_array_def from_text_def from_kwargs_def
        from_lc_kwargs_def from_message_def opt_prop_def Let_def array_join_kwargs_parts)
next
  case (LcKwargsString s)
  then show ?thesis
    by (simp add: extractTextFromChunk_def from_content_array_def from_text_def from_kwargs_def
        from_lc_kwargs_def from_message_def opt_prop_def Let_def)
next
  case (MessageString s)
  then show ?thesis
    by (simp add: extractTextFromChunk_def from_content_array_def from_text_def from_kwargs_def
        from_lc_kwargs_def from_message_def opt_prop_def Let_def)
qed

section \<open>Evaluation of the closed statements\<close>

text \<open>The definitions unfolded to run a turn on the sample inputs.\<close>

lemmas sample_docs = markers_doc_def route_doc_def unknown_tag_doc_def no_action_doc_def
  chat_frame_def

lemmas run_simps = on_message_def chat_turn_def start_turn_def json_parse_sample_def sample_docs
  handleLLMNewToken_def handleToolStart_def handleToolEnd_def capture_def forward_def
  extractSideAction_def wsSend_def open_socket_def one_session_def conn0_def sid0_def
  using_status_def update_history_def push_assistant_def keep_manageable_def trim_def
  is_space_def extractTextFromChunk_def from_content_array_def from_text_def from_kwargs_def
  from_lc_kwargs_def from_message_def opt_prop_def str_includes_def
  sublist_Cons_right markers_action_def route_action_def unknown_action_def Let_def

section \<open>The thinking indicator\<close>

text \<open>
  Claim C3, as stated, at a turn that streams one token: the status
  \<^verbatim>\<open>{type:"thinking", status:null}\<close> is written twice, once by \<^verbatim>\<open>handleLLMNewToken\<close> when
  the stream starts (line 311) and once at the end of the turn (line 454), so it is not
  emitted exactly once in that turn.
\<close>

theorem status_null_twice_when_streaming:
  "sent (fst (on_message json_parse_sample sid0 chat_frame
                [HandleLLMNewToken ''Hello'',
                 StreamEvent (OnChainEnd ''AgentExecutor'' (Some ''Hello''))] conn0)) =
     [Thinking (Some ''Thinking...''), Thinking None, Stream (JStr ''Hello''),
      StreamEnd ''Hello'' JNull, Thinking None] \<and>
   count_list
     (sent (fst (on_message json_parse_sample sid0 chat_frame
                [HandleLLMNewToken ''Hello'',
                 StreamEvent (OnChainEnd ''AgentExecutor'' (Some ''Hello''))] conn0)))
     (Thinking None) = 2"
  by (simp add: run_simps)

text \<open>
  Claim C3, amended. For every chat turn on a socket that is open and stays open, on
  every path (the agent streams, it answers without streaming, the turn fails): the
  turn writes at least one event, the last event is the status \<^verbatim>\<open>null\<close>, and the turn
  holds that status once when no \<^verbatim>\<open>stream\<close> event was written and twice when one was
  (the other one precedes the first \<^verbatim>\<open>stream\<close> event).
\<close>

theorem status_null_per_turn:
  assumes "readyState (fst c) = OPEN" and "ClientCloses \<notin> set steps"
  shows "\<exists>new. sent (fst (chat_turn parse sid um steps c)) = sent (fst c) @ new \<and>
           new \<noteq> [] \<and> last new = Thinking None \<and>
           count_list new (Thinking None) = (if stream_texts new = [] then 1 else 2)"
proof (cases "snd c sid")
  case None
  show ?thesis
    by (rule exI[of _ "[Thinking (Some ''Thinking...''), Error, Thinking None]"])
       (simp add: chat_turn_no_session[OF assms(1) None])
next
  case (Some session)
  define t where "t = final_state (drive parse sid steps (start_turn c))"
  let ?ev = "turn_events (start_turn c) t"
  note f = drive_facts[OF assms t_def]
  show ?thesis
  proof (cases "drive parse sid steps (start_turn c)")
    case (Inl t')
    then have d: "drive parse sid steps (start_turn c) = Inl t"
      by (simp add: t_def final_state_def)
    show ?thesis
      by (rule exI[of _ "Thinking (Some ''Thinking...'') # ?ev @ [Error, Thinking None]"])
         (simp add: chat_turn_drive_throws[OF assms Some d] f stream_texts_append)
  next
    case (Inr t')
    then have d: "drive parse sid steps (start_turn c) = Inr t"
      by (simp add: t_def final_state_def)
    show ?thesis
    proof (cases "update_history um (fullResponse t) (chatHistory session)")
      case None
      show ?thesis
        by (rule exI[of _ "Thinking (Some ''Thinking...'') # ?ev
              @ [StreamEnd (fullResponse t) (mapAction t), Error, Thinking None]"])
           (simp add: chat_turn_history_throws[OF assms Some d None] f stream_texts_append)
    next
      case (Some h)
      show ?thesis
        by (rule exI[of _ "Thinking (Some ''Thinking...'') # ?ev
              @ [StreamEnd (fullResponse t) (mapAction t), Thinking None]"])
           (simp add: chat_turn_completes[OF assms \<open>snd c sid = Some session\<close> d Some] f
              stream_texts_append)
    qed
  qed
qed

text \<open>The theorem at a turn that fails at once.\<close>

theorem status_null_per_turn_witness:
  "\<exists>new. sent (fst (chat_turn json_parse_sample sid0 (JStr ''Find cafes'') [AgentThrows] conn0))
            = sent (fst conn0) @ new \<and>
         new \<noteq> [] \<and> last new = Thinking None \<and>
         count_list new (Thinking None) = (if stream_texts new = [] then 1 else 2)"
proof -
  have a: "readyState (fst conn0) = OPEN"
    by (simp add: conn0_def open_socket_def)
  have b: "ClientCloses \<notin> set [AgentThrows]"
    by simp
  show ?thesis
    using status_null_per_turn[OF a b] by blast
qed

section \<open>Failure of a turn\<close>

text \<open>
  Claim C7. When an exception reaches the \<^verbatim>\<open>catch\<close> of a turn (driving the agent throws,
  the history update throws, or the store has no session to read) on a socket that is
  open and stays open, the turn writes exactly one \<^verbatim>\<open>error\<close> event and ends with the
  status \<^verbatim>\<open>null\<close>; the session store is exactly as before, so a stored session is
  still there with its history, and the socket is still open: the next message finds
  the connection as the failed turn found it.
\<close>

theorem turn_failure_contained:
  assumes "readyState (fst c) = OPEN" and "ClientCloses \<notin> set steps"
    and "turn_throws parse sid um steps c"
  shows "\<exists>new. sent (fst (chat_turn parse sid um steps c)) = sent (fst c) @ new \<and>
           count_list new Error = 1 \<and> last new = Thinking None \<and>
           snd (chat_turn parse sid um steps c) = snd c \<and>
           readyState (fst (chat_turn parse sid um steps c)) = OPEN"
proof (cases "snd c sid")
  case None
  show ?thesis
    by (rule exI[of _ "[Thinking (Some ''Thinking...''), Error, Thinking None]"])
       (simp add: chat_turn_no_session[OF assms(1) None])
next
  case (Some session)
  define t where "t = final_state (drive parse sid steps (start_turn c))"
  let ?ev = "turn_events (start_turn c) t"
  note f = drive_facts[OF assms(1,2) t_def]
  show ?thesis
  proof (cases "drive parse sid steps (start_turn c)")
    case (Inl t')
    then have d: "drive parse sid steps (start_turn c) = Inl t"
      by (simp add: t_def final_state_def)
    show ?thesis
      by (rule exI[of _ "Thinking (Some ''Thinking...'') # ?ev @ [Error, Thinking None]"])
         (simp add: chat_turn_drive_throws[OF assms(1,2) Some d] f)
  next
    case (Inr t')
    then have d: "drive parse sid steps (start_turn c) = Inr t"
      by (simp add: t_def final_state_def)
    then have n: "update_history um (fullResponse t) (chatHistory session) = None"
      using Some assms(3) by (simp add: turn_throws_def)
    show ?thesis
      by (rule exI[of _ "Thinking (Some ''Thinking...'') # ?ev
            @ [StreamEnd (fullResponse t) (mapAction t), Error, Thinking None]"])
         (simp add: chat_turn_history_throws[OF assms(1,2) Some d n] f)
  qed
qed

text \<open>The theorem at a turn whose agent throws after one token.\<close>

theorem turn_failure_contained_witness:
  "\<exists>new. sent (fst (chat_turn json_parse_sample sid0 (JStr ''Find cafes'')
                     [HandleLLMNewToken ''Let me'', AgentThrows] conn0)) = sent (fst conn0) @ new \<and>
     count_list new Error = 1 \<and> last new = Thinking None \<and>
     snd (chat_turn json_parse_sample sid0 (JStr ''Find cafes'')
            [HandleLLMNewToken ''Let me'', AgentThrows] conn0) = snd conn0 \<and>
     readyState (fst (chat_turn json_parse_sample sid0 (JStr ''Find cafes'')
            [HandleLLMNewToken ''Let me'', AgentThrows] conn0)) = OPEN"
proof -
  have a: "readyState (fst conn0) = OPEN"
    by (simp add: conn0_def open_socket_def)
  have b: "ClientCloses \<notin> set [HandleLLMNewToken ''Let me'', AgentThrows]"
    by simp
  have c: "snd conn0 sid0 = Some \<lparr>chatHistory = [], ws_handle = 0\<rparr>"
    by (simp add: conn0_def one_session_def)
  have d: "turn_throws json_parse_sample sid0 (JStr ''Find cafes'')
             [HandleLLMNewToken ''Let me'', AgentThrows] conn0"
    by (simp add: turn_throws_def c handleLLMNewToken_def)
  show ?thesis
    using turn_failure_contained[OF a b d] by blast
qed

lemma failed_turn_example:
  "sent (fst (chat_turn json_parse_sample sid0 (JStr ''Find cafes'')
                [HandleLLMNewToken ''Let me'', AgentThrows] conn0)) =
     [Thinking (Some ''Thinking...''), Thinking None, Stream (JStr ''Let me''), Error,
      Thinking None]"
  by (simp add: run_simps)

section \<open>The final text\<close>

lemma answer_or_stream:
  assumes "readyState (fst c) = OPEN" and "ClientCloses \<notin> set steps"
    and "list_all (\<lambda>s. \<not> is_executor_end s) (butlast steps)"
    and "drive parse sid steps (start_turn c) = Inr t"
  shows "fullResponse t =
           (if stream_texts (turn_events (start_turn c) t) = [] then final_answer steps
            else concat (stream_texts (turn_events (start_turn c) t)))"
proof (cases steps rule: rev_cases)
  case Nil
  then have "t = start_turn c" using assms(4) by simp
  then show ?thesis using Nil by (simp add: turn_events_refl start_turn_open(5)[OF assms(1)])
next
  case (snoc xs s)
  let ?t0 = "start_turn c"
  note so = start_turn_open[OF assms(1)]
  obtain t1 where d1: "drive parse sid xs ?t0 = Inr t1" and s1: "step parse sid s t1 = Some t"
    using drive_snoc_Inr assms(4) snoc by blast
  have nc: "ClientCloses \<notin> set xs" "s \<noteq> ClientCloses"
    using assms(2) snoc by auto
  have ne: "list_all (\<lambda>s. \<not> is_executor_end s) xs"
    using assms(3) snoc by simp
  have t1: "t1 = final_state (drive parse sid xs ?t0)"
    using d1 by (simp add: final_state_def)
  have p1: "proceeds ?t0 t1"
    unfolding t1 by (rule drive_proceeds[OF so(2) nc(1)])
  then have o1: "readyState (sock t1) = OPEN" by (simp add: proceeds_def)
  have a1: "fullResponse t1 = concat (stream_texts (turn_events ?t0 t1))"
    using drive_accumulates[OF so(2) nc(1) ne t1] so(5) by simp
  have st1: "streamStarted t1 \<longleftrightarrow> stream_texts (turn_events ?t0 t1) \<noteq> []"
    using p1 so(4) by (auto simp: proceeds_def)
  have p2: "proceeds t1 t"
    using step_proceeds[OF o1 s1 nc(2)] .
  have e: "turn_events ?t0 t = turn_events ?t0 t1 @ turn_events t1 t"
    using extends_trans(2) p1 p2 by (simp add: proceeds_def)
  show ?thesis
  proof (cases "is_executor_end s")
    case False
    have a2: "fullResponse t = fullResponse t1 @ concat (stream_texts (turn_events t1 t))"
      using step_accumulates[OF o1 s1 nc(2) False] .
    have "fullResponse t = concat (stream_texts (turn_events ?t0 t))"
      by (simp add: a1 a2 e stream_texts_append)
    moreover have "final_answer steps = []"
      using False snoc by (simp add: final_answer_snoc final_answer_other)
    ultimately show ?thesis by simp
  next
    case True
    then obtain out where s: "s = StreamEvent (OnChainEnd ''AgentExecutor'' out)"
      by (cases s rule: is_executor_end.cases) auto
    have fa: "final_answer steps = (case out of None \<Rightarrow> [] | Some x \<Rightarrow> x)"
      using snoc s by (simp add: final_answer_snoc split: option.splits)
    have ev: "turn_events t1 t = []"
      using s1 s by (auto simp: turn_events_def split: option.splits if_splits)
    have fr: "fullResponse t =
        (case out of None \<Rightarrow> fullResponse t1
         | Some x \<Rightarrow> if x \<noteq> [] \<and> \<not> streamStarted t1 then x else fullResponse t1)"
      using s1 s by (auto split: option.splits if_splits)
    show ?thesis
      using fr fa a1 st1 by (auto simp: e ev split: option.splits)
  qed
qed

text \<open>
  Claim C9. Take a turn that completes on a socket that is open and stays open, and in
  which the end of the executor's run, when the feed reports it, is the last thing
  that happens. Then the text of the \<^verbatim>\<open>stream_end\<close> event is the executor's final answer
  when the turn wrote no \<^verbatim>\<open>stream\<close> event (the empty text when the feed carried no
  answer), and the concatenation of the streamed texts when it wrote some.
\<close>

theorem final_text_fallback:
  assumes "readyState (fst c) = OPEN" and "ClientCloses \<notin> set steps"
    and "list_all (\<lambda>s. \<not> is_executor_end s) (butlast steps)"
    and "snd c sid = Some session"
    and "drive parse sid steps (start_turn c) = Inr t"
  shows "\<exists>new. sent (fst (chat_turn parse sid um steps c)) = sent (fst c) @ new \<and>
           final_text new =
             Some (if stream_texts new = [] then final_answer steps
                   else concat (stream_texts new))"
proof -
  let ?ev = "turn_events (start_turn c) t"
  have t: "t = final_state (drive parse sid steps (start_turn c))"
    using assms(5) by (simp add: final_state_def)
  note f = drive_facts[OF assms(1,2) t]
  note a = answer_or_stream[OF assms(1,2,3,5)]
  show ?thesis
  proof (cases "update_history um (fullResponse t) (chatHistory session)")
    case None
    show ?thesis
      by (rule exI[of _ "Thinking (Some ''Thinking...'') # ?ev
              @ [StreamEnd (fullResponse t) (mapAction t), Error, Thinking None]"])
         (simp add: chat_turn_history_throws[OF assms(1,2,4,5) None] f a
            stream_texts_append final_text_append)
  next
    case (Some h)
    show ?thesis
      by (rule exI[of _ "Thinking (Some ''Thinking...'') # ?ev
              @ [StreamEnd (fullResponse t) (mapAction t), Thinking None]"])
         (simp add: chat_turn_completes[OF assms(1,2,4,5) Some] f a
            stream_texts_append final_text_append)
  qed
qed

text \<open>The theorem at a turn whose agent answers without streaming.\<close>

theorem final_text_fallback_witness:
  "\<exists>new. sent (fst (chat_turn json_parse_sample sid0 (JStr ''Find cafes'')
                     [StreamEvent (OnChainEnd ''AgentExecutor'' (Some ''Here are three cafes.''))]
                     conn0)) = sent (fst conn0) @ new \<and>
     final_text new =
       Some (if stream_texts new = []
             then final_answer
                    [StreamEvent (OnChainEnd ''AgentExecutor'' (Some ''Here are three cafes.''))]
             else concat (stream_texts new))"
proof -
  let ?steps = "[StreamEvent (OnChainEnd ''AgentExecutor'' (Some ''Here are three cafes.''))]"
  have a: "readyState (fst conn0) = OPEN"
    by (simp add: conn0_def open_socket_def)
  have b: "ClientCloses \<notin> set ?steps"
    by simp
  have c: "list_all (\<lambda>s. \<not> is_executor_end s) (butlast ?steps)"
    by simp
  have d: "snd conn0 sid0 = Some \<lparr>chatHistory = [], ws_handle = 0\<rparr>"
    by (simp add: conn0_def one_session_def)
  have e: "drive json_parse_sample sid0 ?steps (start_turn conn0)
             = Inr ((start_turn conn0)\<lparr>fullResponse := ''Here are three cafes.''\<rparr>)"
    by (simp add: start_turn_def)
  show ?thesis
    using final_text_fallback[OF a b c d e] by blast
qed

lemma fallback_example:
  "sent (fst (chat_turn json_parse_sample sid0 (JStr ''Find cafes'')
                [StreamEvent (OnChainEnd ''AgentExecutor'' (Some ''Here are three cafes.''))]
                conn0)) =
     [Thinking (Some ''Thinking...''), StreamEnd ''Here are three cafes.'' JNull, Thinking None]"
  by (simp add: run_simps)

section \<open>A closed transport\<close>

lemma wsSend_closed: "readyState ws \<noteq> OPEN \<Longrightarrow> wsSend ws d = ws"
  by (simp add: wsSend_def)

lemma forward_closed:
  assumes "readyState (sock t) \<noteq> OPEN"
  shows "sock (forward text s t) = sock t" and "store (forward text s t) = store t"
  using assms by (simp_all add: forward_def wsSend_def Let_def)

lemma handleToolStart_closed:
  assumes "readyState (sock t) \<noteq> OPEN"
  shows "sock (handleToolStart nm t) = sock t" and "store (handleToolStart nm t) = store t"
  using assms by (simp_all add: handleToolStart_def wsSend_def Let_def)

lemma capture_closed:
  assumes "readyState (sock t) \<noteq> OPEN"
  shows "sock (capture found t) = sock t" and "store (capture found t) = store t"
  using assms by (simp_all add: capture_def wsSend_def Let_def split: option.splits)

lemma handleToolEnd_closed:
  assumes "readyState (sock t) \<noteq> OPEN"
  shows "sock (handleToolEnd parse out t) = sock t" and "store (handleToolEnd parse out t) = store t"
  using assms by (simp_all add: handleToolEnd_def wsSend_def Let_def capture_closed)

lemma on_event_closed:
  assumes "readyState (sock t) \<noteq> OPEN" and "on_event parse e t = Some t'"
  shows "sock t' = sock t \<and> store t' = store t"
proof (cases e)
  case (OnToolStart nm)
  then show ?thesis using assms by (auto simp: handleToolStart_closed split: if_splits)
next
  case (OnToolEnd out)
  then show ?thesis using assms
    by (auto simp: capture_closed wsSend_def Let_def split: if_splits option.splits)
next
  case (OnChatModelStream chunk)
  then show ?thesis using assms by (auto simp: forward_closed split: if_splits option.splits)
next
  case (OnChainEnd nm out)
  then show ?thesis using assms by (auto split: if_splits option.splits)
next
  case (OtherEvent ty)
  then show ?thesis using assms by simp
qed

lemma step_closed:
  assumes "readyState (sock t) = CLOSED" and "store t sid = None"
    and "step parse sid s t = Some t'"
  shows "readyState (sock t') = CLOSED \<and> sent (sock t') = sent (sock t) \<and> store t' sid = None"
proof (cases s)
  case (HandleLLMNewToken token)
  then show ?thesis using assms by (auto simp: handleLLMNewToken_def forward_closed)
next
  case (HandleToolStart nm)
  then show ?thesis using assms by (auto simp: handleToolStart_closed)
next
  case (HandleToolEnd out)
  then show ?thesis using assms by (auto simp: handleToolEnd_closed)
next
  case (StreamEvent e)
  then have "sock t' = sock t \<and> store t' = store t"
    using on_event_closed[of t parse e t'] assms by simp
  then show ?thesis using assms by simp
next
  case AgentThrows
  then show ?thesis using assms by simp
next
  case ClientCloses
  then show ?thesis using assms by (auto simp: on_close_def)
qed

lemma drive_closed:
  assumes "readyState (sock t) = CLOSED" and "store t sid = None"
  shows "readyState (sock (final_state (drive parse sid steps t))) = CLOSED \<and>
         sent (sock (final_state (drive parse sid steps t))) = sent (sock t) \<and>
         store (final_state (drive parse sid steps t)) sid = None"
  using assms
proof (induction steps arbitrary: t)
  case Nil
  then show ?case by (simp add: final_state_def)
next
  case (Cons s ss)
  show ?case
  proof (cases "step parse sid s t")
    case None
    then show ?thesis using Cons.prems by (simp add: final_state_def)
  next
    case (Some t')
    then show ?thesis
      using step_closed[OF Cons.prems Some] Cons.IH[of t'] by simp
  qed
qed

text \<open>
  Claim C8. Writing to a socket that is not open returns the socket as it is (the model
  of \<^verbatim>\<open>wsSend\<close> has no exception), and the close handler leaves the store without the
  session. Hence, when the client disconnects while a turn of a stored session is in
  progress (the steps \<open>pre\<close> have been driven without an exception), whatever the agent
  still does (\<open>post\<close>) and the end of the turn write nothing: the socket holds what had
  been sent at the disconnect, it is closed, and the store has no entry for the session.
\<close>

theorem disconnect_mid_stream:
  assumes "snd c sid = Some session" and "drive parse sid pre (start_turn c) = Inr t1"
  shows "(\<forall>ws d. readyState ws \<noteq> OPEN \<longrightarrow> wsSend ws d = ws) \<and>
         (\<forall>st. on_close sid st sid = None) \<and>
         sent (fst (chat_turn parse sid um (pre @ ClientCloses # post) c)) = sent (sock t1) \<and>
         readyState (fst (chat_turn parse sid um (pre @ ClientCloses # post) c)) = CLOSED \<and>
         snd (chat_turn parse sid um (pre @ ClientCloses # post) c) sid = None"
proof -
  define t2 where "t2 = t1\<lparr>sock := (sock t1)\<lparr>readyState := CLOSED\<rparr>, store := on_close sid (store t1)\<rparr>"
  define r where "r = drive parse sid post t2"
  define t where "t = final_state r"
  have d: "drive parse sid (pre @ ClientCloses # post) (start_turn c) = r"
    by (simp add: drive_append assms(2) r_def t2_def)
  have c2: "readyState (sock t2) = CLOSED" "store t2 sid = None" "sent (sock t2) = sent (sock t1)"
    by (simp_all add: t2_def on_close_def)
  have f: "readyState (sock t) = CLOSED" "sent (sock t) = sent (sock t1)" "store t sid = None"
    using drive_closed[OF c2(1,2), of parse post] c2(3) by (simp_all add: t_def r_def)
  have "sent (fst (chat_turn parse sid um (pre @ ClientCloses # post) c)) = sent (sock t1) \<and>
        readyState (fst (chat_turn parse sid um (pre @ ClientCloses # post) c)) = CLOSED \<and>
        snd (chat_turn parse sid um (pre @ ClientCloses # post) c) sid = None"
  proof (cases r)
    case (Inl x)
    then have "x = t" by (simp add: t_def final_state_def)
    then show ?thesis
      using f Inl by (simp add: chat_turn_def assms(1) d wsSend_def)
  next
    case (Inr x)
    then have "x = t" by (simp add: t_def final_state_def)
    then show ?thesis
      using f Inr by (simp add: chat_turn_def assms(1) d wsSend_def Let_def split: option.splits)
  qed
  then show ?thesis
    by (simp add: wsSend_closed on_close_def)
qed

text \<open>The theorem at a client that disconnects after the first token.\<close>

theorem disconnect_mid_stream_witness:
  "sent (fst (chat_turn json_parse_sample sid0 (JStr ''Find cafes'')
                ([HandleLLMNewToken ''Here''] @ ClientCloses #
                   [HandleLLMNewToken '' are three cafes.'',
                    StreamEvent (OnChainEnd ''AgentExecutor'' (Some ''Here are three cafes.''))])
                conn0)) =
     [Thinking (Some ''Thinking...''), Thinking None, Stream (JStr ''Here'')] \<and>
   readyState (fst (chat_turn json_parse_sample sid0 (JStr ''Find cafes'')
                ([HandleLLMNewToken ''Here''] @ ClientCloses #
                   [HandleLLMNewToken '' are three cafes.'',
                    StreamEvent (OnChainEnd ''AgentExecutor'' (Some ''Here are three cafes.''))])
                conn0)) = CLOSED \<and>
   snd (chat_turn json_parse_sample sid0 (JStr ''Find cafes'')
                ([HandleLLMNewToken ''Here''] @ ClientCloses #
                   [HandleLLMNewToken '' are three cafes.'',
                    StreamEvent (OnChainEnd ''AgentExecutor'' (Some ''Here are three cafes.''))])
                conn0) sid0 = None"
proof -
  have a: "snd conn0 sid0 = Some \<lparr>chatHistory = [], ws_handle = 0\<rparr>"
    by (simp add: conn0_def one_session_def)
  have b: "drive json_parse_sample sid0 [HandleLLMNewToken ''Here''] (start_turn conn0)
             = Inr (handleLLMNewToken ''Here'' (start_turn conn0))"
    by simp
  have c: "sent (sock (handleLLMNewToken ''Here'' (start_turn conn0))) =
             [Thinking (Some ''Thinking...''), Thinking None, Stream (JStr ''Here'')]"
    by (simp add: handleLLMNewToken_def forward_def start_turn_def wsSend_def conn0_def
        open_socket_def Let_def)
  show ?thesis
    using disconnect_mid_stream[OF a b] c by simp
qed

section \<open>Forwarding of the streamed fragments\<close>

lemma str_includes_suffix: "str_includes (a @ s) s"
  unfolding str_includes_def sublist_def by (intro exI[of _ a] exI[of _ "[]"]) simp

lemma stream_event_text:
  "on_event parse (OnChatModelStream (chunk_of sh)) t =
     Some (if text_of sh \<noteq> [] \<and> \<not> str_includes (fullResponse t) (text_of sh)
           then forward (JStr (text_of sh)) (text_of sh) t else t)"
  by (simp add: extract_chunk_of)

lemma forward_text_open:
  assumes "readyState (sock t) = OPEN"
  shows "\<exists>e. sent (sock (forward (JStr s) s t)) = sent (sock t) @ e \<and> stream_texts e = [s]"
  by (rule exI[of _ "(if streamStarted t then [] else [Thinking None]) @ [Stream (JStr s)]"])
     (simp add: forward_open[OF assms] stream_texts_append)

lemma deliver_one:
  assumes "readyState (sock t) = OPEN" and "no_repeat (fullResponse t) (d # ds)"
  shows "\<exists>t1 e1. drive parse sid (delivery_steps d @ rest) t = drive parse sid rest t1 \<and>
           readyState (sock t1) = OPEN \<and> sent (sock t1) = sent (sock t) @ e1 \<and>
           stream_texts e1 = filter (\<lambda>s. s \<noteq> []) [delivery_text d] \<and>
           fullResponse t1 = fullResponse t @ delivery_text d"
proof (cases d)
  case (Direct s)
  show ?thesis
  proof (cases "s = []")
    case True
    then show ?thesis
      using Direct assms(1) by (intro exI[of _ t] exI[of _ "[]"]) (simp add: handleLLMNewToken_def)
  next
    case False
    obtain e where e: "sent (sock (forward (JStr s) s t)) = sent (sock t) @ e" "stream_texts e = [s]"
      using forward_text_open[OF assms(1)] by blast
    show ?thesis
      using Direct False e
      by (intro exI[of _ "forward (JStr s) s t"] exI[of _ e])
         (simp add: handleLLMNewToken_def forward_open[OF assms(1)])
  qed
next
  case (Replayed sh)
  show ?thesis
  proof (cases "text_of sh = []")
    case True
    then show ?thesis
      using Replayed assms(1)
      by (intro exI[of _ t] exI[of _ "[]"]) (simp add: stream_event_text del: on_event.simps)
  next
    case False
    then have n: "\<not> str_includes (fullResponse t) (text_of sh)"
      using assms(2) Replayed by simp
    obtain e where e: "sent (sock (forward (JStr (text_of sh)) (text_of sh) t)) = sent (sock t) @ e"
        "stream_texts e = [text_of sh]"
      using forward_text_open[OF assms(1)] by blast
    show ?thesis
      using Replayed False n e
      by (intro exI[of _ "forward (JStr (text_of sh)) (text_of sh) t"] exI[of _ e])
         (simp add: stream_event_text forward_open[OF assms(1)] del: on_event.simps)
  qed
next
  case (Both sh)
  show ?thesis
  proof (cases "text_of sh = []")
    case True
    then show ?thesis
      using Both assms(1)
      by (intro exI[of _ t] exI[of _ "[]"])
         (simp add: handleLLMNewToken_def stream_event_text del: on_event.simps)
  next
    case False
    let ?t1 = "forward (JStr (text_of sh)) (text_of sh) t"
    obtain e where e: "sent (sock ?t1) = sent (sock t) @ e" "stream_texts e = [text_of sh]"
      using forward_text_open[OF assms(1)] by blast
    have i: "str_includes (fullResponse ?t1) (text_of sh)"
      by (simp add: forward_open[OF assms(1)] str_includes_suffix)
    show ?thesis
      using Both False e i
      by (intro exI[of _ ?t1] exI[of _ e])
         (simp add: handleLLMNewToken_def stream_event_text forward_open[OF assms(1)]
            del: on_event.simps)
  qed
qed

lemma no_repeat_tail:
  "no_repeat acc (d # ds) \<Longrightarrow> no_repeat (acc @ delivery_text d) ds"
  by (cases d) simp_all

text \<open>
  Claim C1, as stated, at the reply \<^verbatim>\<open>to be or not to be\<close> arriving word by word through
  the event feed only, each chunk of the shape \<^verbatim>\<open>{content: s}\<close>: the fragments \<^verbatim>\<open>to\<close> and
  \<^verbatim>\<open>be\<close> of the second half occur in the text accumulated so far, the substring test of
  line 401 drops them, and the \<^verbatim>\<open>stream\<close> events concatenate to \<^verbatim>\<open>to be or not\<close>, not to
  the underlying text.
\<close>

theorem repeated_fragment_lost:
  "concat (map delivery_text to_be) = ''to be or not to be'' \<and>
   concat (stream_texts (sent (fst (chat_turn json_parse_sample sid0 (JStr ''Quote Hamlet'')
                                     (concat (map delivery_steps to_be)) conn0))))
     = ''to be or not ''"
  by (simp add: run_simps to_be_def)

text \<open>
  Claim C1, amended. Let every fragment of the underlying text arrive through the token
  callback, or through the callback and then replayed through the event feed, or
  through the feed only, in any of the chunk shapes; and let no non-empty fragment that
  arrives through the feed only occur already in the text accumulated before it. Then
  driving the turn on an open socket does not throw, the texts of the \<^verbatim>\<open>stream\<close> events it
  writes are exactly the non-empty fragments, each once and in order, their
  concatenation is the underlying text, and so is what the turn accumulates.
\<close>

theorem fragments_forwarded_once:
  assumes "readyState (sock t) = OPEN" and "no_repeat (fullResponse t) ds"
  shows "\<exists>t' new. drive parse sid (concat (map delivery_steps ds)) t = Inr t' \<and>
           sent (sock t') = sent (sock t) @ new \<and>
           stream_texts new = filter (\<lambda>s. s \<noteq> []) (map delivery_text ds) \<and>
           concat (stream_texts new) = concat (map delivery_text ds) \<and>
           fullResponse t' = fullResponse t @ concat (map delivery_text ds)"
  using assms
proof (induction ds arbitrary: t)
  case Nil
  then show ?case by simp
next
  case (Cons d ds)
  obtain t1 e1 where
    1: "drive parse sid (delivery_steps d @ concat (map delivery_steps ds)) t
          = drive parse sid (concat (map delivery_steps ds)) t1"
    and o1: "readyState (sock t1) = OPEN"
    and s1: "sent (sock t1) = sent (sock t) @ e1"
    and x1: "stream_texts e1 = filter (\<lambda>s. s \<noteq> []) [delivery_text d]"
    and f1: "fullResponse t1 = fullResponse t @ delivery_text d"
    using deliver_one[OF Cons.prems] by blast
  have "no_repeat (fullResponse t1) ds"
    using no_repeat_tail[OF Cons.prems(2)] f1 by simp
  from Cons.IH[OF o1 this] obtain t' e2 where
    2: "drive parse sid (concat (map delivery_steps ds)) t1 = Inr t'"
    and s2: "sent (sock t') = sent (sock t1) @ e2"
    and x2: "stream_texts e2 = filter (\<lambda>s. s \<noteq> []) (map delivery_text ds)"
    and f2: "fullResponse t' = fullResponse t1 @ concat (map delivery_text ds)"
    by blast
  have c: "concat (filter (\<lambda>s. s \<noteq> []) xs) = concat xs" for xs :: "string list"
    by (induction xs) simp_all
  show ?case
    using 1 2 s1 s2 x1 x2 f1 f2
    by (intro exI[of _ t'] exI[of _ "e1 @ e2"]) (simp add: stream_texts_append c)
qed

text \<open>The theorem at a reply whose three fragments arrive in the three ways.\<close>

theorem fragments_forwarded_once_witness:
  "\<exists>t' new. drive json_parse_sample sid0 (concat (map delivery_steps three_cafes)) (start_turn conn0)
                = Inr t' \<and>
     sent (sock t') = sent (sock (start_turn conn0)) @ new \<and>
     stream_texts new = filter (\<lambda>s. s \<noteq> []) (map delivery_text three_cafes) \<and>
     concat (stream_texts new) = concat (map delivery_text three_cafes) \<and>
     fullResponse t' = fullResponse (start_turn conn0) @ concat (map delivery_text three_cafes)"
proof -
  have a: "readyState (sock (start_turn conn0)) = OPEN"
    by (simp add: start_turn_def conn0_def open_socket_def wsSend_def)
  have b: "no_repeat (fullResponse (start_turn conn0)) three_cafes"
    by (simp add: start_turn_def three_cafes_def str_includes_def sublist_Cons_right)
  show ?thesis
    using fragments_forwarded_once[OF a b] by blast
qed

lemma three_cafes_example:
  "sent (fst (chat_turn json_parse_sample sid0 (JStr ''Find cafes'')
                (concat (map delivery_steps three_cafes)) conn0)) =
     [Thinking (Some ''Thinking...''), Thinking None, Stream (JStr ''Here ''),
      Stream (JStr ''are three ''), Stream (JStr ''cafes.''),
      StreamEnd ''Here are three cafes.'' JNull, Thinking None]"
  by (simp add: run_simps three_cafes_def array_join_def content_part_def js_or_def)

section \<open>Session identifiers\<close>

text \<open>
  Claim C5, at two connections opened 1000 seconds apart (the clock reads
  1730000123456 ms and 1730001123456 ms) with the first still open: both handlers
  compute the session id \<^verbatim>\<open>123456\<close>, the last six digits of the clock, and the second
  \<^verbatim>\<open>sessions.set\<close> replaces the entry of the first, so the store holds one session for
  the two connections.
\<close>

theorem session_ids_collide:
  "fst (on_connection 1730000123456 1 open_socket Map.empty) = ''123456'' \<and>
   fst (on_connection 1730001123456 2 open_socket
          (snd (snd (on_connection 1730000123456 1 open_socket Map.empty)))) = ''123456'' \<and>
   snd (snd (on_connection 1730001123456 2 open_socket
          (snd (snd (on_connection 1730000123456 1 open_socket Map.empty))))) ''123456''
     = Some \<lparr>chatHistory = [], ws_handle = 2\<rparr> \<and>
   dom (snd (snd (on_connection 1730001123456 2 open_socket
          (snd (snd (on_connection 1730000123456 1 open_socket Map.empty)))))) = {''123456''}"
  by (simp add: on_connection_def sessionId_of_def slice_last_def digit_char_def Let_def)

section \<open>Side actions\<close>

text \<open>
  Claim C6, as stated, at a tool result whose map action carries the tag \<^verbatim>\<open>FLY_TO\<close>, which
  is none of the tags the client has a case for: the extraction does not return
  \<^verbatim>\<open>null\<close>, it returns that action.
\<close>

theorem extractSideAction_unknown_tag:
  "json_parse_sample unknown_tag_doc
     = Some (JObj [(''result'', JArr []), (''mapAction'', unknown_action)]) \<and>
   \<not> recognized_tag unknown_action \<and>
   extractSideAction json_parse_sample unknown_tag_doc = Some unknown_action"
  by (simp add: json_parse_sample_def sample_docs extractSideAction_def unknown_action_def
      recognized_tag_def opt_prop_def)

text \<open>
  Claim C6, amended. The extraction is total and has no exception. It returns \<^verbatim>\<open>null\<close>
  exactly when the text does not parse or the parsed document has no truthy
  \<^verbatim>\<open>mapAction\<close> property; otherwise it returns that property's value, one value, as it
  is: neither its tag nor its payload is inspected.
\<close>

theorem extractSideAction_total:
  "(extractSideAction parse output = None \<longleftrightarrow>
      parse output = None \<or>
      (\<exists>parsed. parse output = Some parsed \<and> \<not> truthy (opt_prop ''mapAction'' parsed))) \<and>
   (\<forall>m. extractSideAction parse output = Some m \<longleftrightarrow>
      (\<exists>parsed. parse output = Some parsed \<and> m = opt_prop ''mapAction'' parsed \<and> truthy m))"
  by (auto simp: extractSideAction_def opt_prop_def split: option.splits)

text \<open>
  The theorem at a text that is not JSON, at a result without a map action and at a
  result with one.
\<close>

theorem extractSideAction_total_witness:
  "extractSideAction json_parse_sample ''Service unavailable'' = None \<and>
   extractSideAction json_parse_sample no_action_doc = None \<and>
   extractSideAction json_parse_sample markers_doc = Some markers_action"
proof -
  have a: "json_parse_sample ''Service unavailable'' = None"
    by (simp add: json_parse_sample_def sample_docs)
  have b: "json_parse_sample no_action_doc = Some (JObj [(''result'', JArr []), (''mapAction'', JNull)])"
    by (simp add: json_parse_sample_def sample_docs)
  have b': "\<not> truthy (opt_prop ''mapAction'' (JObj [(''result'', JArr []), (''mapAction'', JNull)]))"
    by (simp add: opt_prop_def)
  have c: "json_parse_sample markers_doc = Some (JObj [(''result'', JArr []), (''mapAction'', markers_action)])"
    by (simp add: json_parse_sample_def sample_docs)
  have c': "markers_action = opt_prop ''mapAction'' (JObj [(''result'', JArr []), (''mapAction'', markers_action)])"
    "truthy markers_action"
    by (simp_all add: opt_prop_def markers_action_def)
  show ?thesis
    using extractSideAction_total[of json_parse_sample "''Service unavailable''"]
      extractSideAction_total[of json_parse_sample no_action_doc]
      extractSideAction_total[of json_parse_sample markers_doc] a b b' c c'
    by blast
qed

text \<open>
  Claim C2, at the turn \<open>two_tool_calls\<close>: \<^verbatim>\<open>handleToolEnd\<close> has no test of \<^verbatim>\<open>mapAction\<close>, so
  the turn writes two \<^verbatim>\<open>map_action\<close> events and its \<^verbatim>\<open>stream_end\<close> carries the second
  action, not the first.
\<close>

theorem two_map_actions_in_one_turn:
  "map_actions (sent (fst (on_message json_parse_sample sid0 chat_frame two_tool_calls conn0)))
     = [markers_action, route_action] \<and>
   final_action (sent (fst (on_message json_parse_sample sid0 chat_frame two_tool_calls conn0)))
     = Some route_action \<and>
   sent (fst (on_message json_parse_sample sid0 chat_frame two_tool_calls conn0)) =
     [Thinking (Some ''Thinking...''),
      Thinking (Some ''Using search places...''),
      MapAction markers_action,
      Thinking (Some ''Generating response...''),
      Thinking (Some ''Using get directions...''),
      MapAction route_action,
      Thinking (Some ''Generating response...''),
      Thinking None,
      Stream (JStr ''Done.''),
      StreamEnd ''Done.'' route_action,
      Thinking None]"
  by (simp add: run_simps two_tool_calls_def)

text \<open>
  The same two tool calls reported through the event feed only: the branch of line 378
  tests \<^verbatim>\<open>!mapAction\<close>, writes one \<^verbatim>\<open>map_action\<close> event and keeps the first action.
\<close>

lemma feed_only_first_wins:
  "sent (fst (on_message json_parse_sample sid0 chat_frame
                [StreamEvent (OnToolStart ''search_places''),
                 StreamEvent (OnToolEnd (Some markers_doc)),
                 StreamEvent (OnToolStart ''get_directions''),
                 StreamEvent (OnToolEnd (Some route_doc)),
                 StreamEvent (OnChainEnd ''AgentExecutor'' (Some ''Done.''))] conn0)) =
     [Thinking (Some ''Thinking...''),
      Thinking (Some ''Using search places...''),
      MapAction markers_action,
      Thinking (Some ''Generating response...''),
      Thinking (Some ''Using get directions...''),
      StreamEnd ''Done.'' markers_action,
      Thinking None]"
  by (simp add: run_simps)

section \<open>History retention\<close>

lemma keep_manageable_window:
  "keep_manageable (slice_last 20 prev @ es) = slice_last 20 (prev @ es)"
proof (cases "length prev \<le> 20")
  case True
  then show ?thesis by (simp add: keep_manageable_def slice_last_def)
next
  case False
  then have l: "length (slice_last 20 prev) = 20"
    by (simp add: slice_last_def)
  show ?thesis
  proof (cases "es = []")
    case True
    then show ?thesis using l by (simp add: keep_manageable_def)
  next
    case e: False
    then have "20 < length (slice_last 20 prev @ es)"
      using l by (cases es) simp_all
    then have "keep_manageable (slice_last 20 prev @ es) = slice_last 20 (slice_last 20 prev @ es)"
      by (simp add: keep_manageable_def)
    also have "\<dots> = slice_last 20 (prev @ es)"
      using False by (simp add: slice_last_def add.commute)
    finally show ?thesis .
  qed
qed

lemma push_user_append:
  "push_user um h = (case push_user um [] of None \<Rightarrow> None | Some es \<Rightarrow> Some (h @ es))"
  by (cases um) simp_all

lemma push_assistant_append: "push_assistant r h = h @ push_assistant r []"
  by (simp add: push_assistant_def)

lemma update_history_window:
  assumes "h = slice_last 20 prev"
  shows "update_history um r h =
           (case push_user um [] of
              None \<Rightarrow> None
            | Some es \<Rightarrow> Some (slice_last 20 (prev @ push_assistant r es)))"
proof (cases "push_user um []")
  case None
  then show ?thesis by (simp add: update_history_def push_user_append[of um h])
next
  case (Some es)
  have "push_assistant r (h @ es) = slice_last 20 prev @ push_assistant r es"
    using assms by (simp add: push_assistant_def)
  then have "keep_manageable (push_assistant r (h @ es)) = slice_last 20 (prev @ push_assistant r es)"
    by (simp only: keep_manageable_window)
  then show ?thesis
    using Some by (simp add: update_history_def push_user_append[of um h])
qed

lemma forward_store: "store (forward text s t) = store t"
  by (simp add: forward_def Let_def)

lemma capture_store: "store (capture found t) = store t"
  by (simp add: capture_def Let_def split: option.splits)

lemma on_event_store: "on_event parse e t = Some t' \<Longrightarrow> store t' = store t"
  by (cases e)
     (auto simp: handleToolStart_def forward_store capture_store Let_def
        split: option.splits if_splits)

lemma step_store:
  "step parse sid s t = Some t' \<Longrightarrow> s \<noteq> ClientCloses \<Longrightarrow> store t' = store t"
  by (cases s)
     (auto simp: handleLLMNewToken_def handleToolStart_def handleToolEnd_def forward_store
        capture_store on_event_store Let_def)

lemma drive_store:
  "ClientCloses \<notin> set steps \<Longrightarrow> store (final_state (drive parse sid steps t)) = store t"
proof (induction steps arbitrary: t)
  case Nil
  then show ?case by (simp add: final_state_def)
next
  case (Cons s ss)
  show ?case
  proof (cases "step parse sid s t")
    case None
    then show ?thesis by (simp add: final_state_def)
  next
    case (Some t')
    then show ?thesis
      using Cons step_store[OF Some] by auto
  qed
qed


lemma chat_turn_window:
  assumes "snd c sid = Some s" and "ClientCloses \<notin> set steps"
    and "chatHistory s = slice_last 20 prev"
  shows "\<exists>s'. snd (chat_turn parse sid um steps c) sid = Some s' \<and>
           chatHistory s' = slice_last 20 (prev @ turn_entries parse sid um steps c)"
proof -
  define r where "r = drive parse sid steps (start_turn c)"
  have st: "store (final_state r) = snd c"
    unfolding r_def using drive_store[OF assms(2)] by (simp add: start_turn_def)
  show ?thesis
  proof (cases r)
    case (Inl t)
    then have "store t = snd c" using st by (simp add: final_state_def)
    then show ?thesis
      using Inl assms(1,3) by (simp add: chat_turn_def turn_entries_def r_def[symmetric])
  next
    case (Inr t)
    then have s: "store t = snd c" using st by (simp add: final_state_def)
    note u = update_history_window[OF assms(3), of um "fullResponse t"]
    show ?thesis
    proof (cases "push_user um []")
      case None
      then show ?thesis
        using Inr assms(1,3) s u
        by (simp add: chat_turn_def turn_entries_def r_def[symmetric])
    next
      case (Some es)
      then show ?thesis
        using Inr assms(1,3) s u
        by (simp add: chat_turn_def turn_entries_def r_def[symmetric])
    qed
  qed
qed

lemma on_message_window:
  assumes "snd c sid = Some s" and "ClientCloses \<notin> set steps"
    and "chatHistory s = slice_last 20 prev"
  shows "\<exists>s'. snd (on_message parse sid data steps c) sid = Some s' \<and>
           chatHistory s' = slice_last 20 (prev @ message_entries parse sid data steps c)"
  using assms chat_turn_window[OF assms, of parse]
  by (auto simp: on_message_def message_entries_def split: option.splits)

lemma run_turns_window:
  assumes "snd c sid = Some s" and "\<forall>turn\<in>set turns. ClientCloses \<notin> set (snd turn)"
    and "chatHistory s = slice_last 20 prev"
  shows "\<exists>s'. snd (run_turns parse sid turns c) sid = Some s' \<and>
           chatHistory s' = slice_last 20 (prev @ run_entries parse sid turns c)"
  using assms
proof (induction turns arbitrary: c s prev)
  case Nil
  then show ?case by simp
next
  case (Cons turn turns)
  obtain data steps where turn: "turn = (data, steps)" by (cases turn)
  have nc: "ClientCloses \<notin> set steps" using Cons.prems(2) turn by simp
  obtain s1 where s1: "snd (on_message parse sid data steps c) sid = Some s1"
    "chatHistory s1 = slice_last 20 (prev @ message_entries parse sid data steps c)"
    using on_message_window[OF Cons.prems(1) nc Cons.prems(3)] by blast
  have "\<forall>turn\<in>set turns. ClientCloses \<notin> set (snd turn)" using Cons.prems(2) by simp
  from Cons.IH[OF s1(1) this s1(2)] show ?case
    using turn by simp
qed

text \<open>
  Claim C4, with the turns of the spec's data model (section 3: a session holds an
  ordered sequence of turns, each a role and a text, which are the entries of
  \<^verbatim>\<open>chatHistory\<close>) and the retention window of 20 entries of line 441. Start from a stored
  session with an empty history and handle any messages on its connection, one after
  the other, the client staying connected. When the entries appended by these messages
  number more than 20, the stored history has length 20 and is exactly the last 20 of
  them, in the order in which they were appended.
\<close>

theorem history_retention:
  assumes "snd c sid = Some s" and "chatHistory s = []"
    and "\<forall>turn\<in>set turns. ClientCloses \<notin> set (snd turn)"
    and "20 < length (run_entries parse sid turns c)"
  shows "\<exists>s'. snd (run_turns parse sid turns c) sid = Some s' \<and>
           length (chatHistory s') = 20 \<and>
           chatHistory s' =
             drop (length (run_entries parse sid turns c) - 20) (run_entries parse sid turns c)"
proof -
  have "chatHistory s = slice_last 20 []"
    using assms(2) by (simp add: slice_last_def)
  from run_turns_window[OF assms(1,3) this, of parse] obtain s' where
    "snd (run_turns parse sid turns c) sid = Some s'"
    "chatHistory s' = slice_last 20 (run_entries parse sid turns c)"
    by auto
  then show ?thesis
    using assms(4) by (auto simp: slice_last_def)
qed

lemma eleven_turns_entries:
  "run_entries json_parse_sample sid0 eleven_turns conn0 =
     concat (replicate 11 [HumanMessage ''Find cafes near Times Square'', AIMessage ''Here they are.''])"
  by (simp add: eleven_turns_def eval_nat_numeral message_entries_def turn_entries_def run_simps)

text \<open>
  The theorem at eleven exchanges, which append 22 entries: the history then holds the
  entries of the last ten exchanges.
\<close>

theorem history_retention_witness:
  "\<exists>s'. snd (run_turns json_parse_sample sid0 eleven_turns conn0) sid0 = Some s' \<and>
     length (chatHistory s') = 20 \<and>
     chatHistory s' =
       drop (length (run_entries json_parse_sample sid0 eleven_turns conn0) - 20)
         (run_entries json_parse_sample sid0 eleven_turns conn0)"
proof -
  have a: "snd conn0 sid0 = Some \<lparr>chatHistory = [], ws_handle = 0\<rparr>"
    by (simp add: conn0_def one_session_def)
  have b: "chatHistory \<lparr>chatHistory = [], ws_handle = 0\<rparr> = []"
    by simp
  have c: "\<forall>turn\<in>set eleven_turns. ClientCloses \<notin> set (snd turn)"
    by (simp add: eleven_turns_def)
  have d: "20 < length (run_entries json_parse_sample sid0 eleven_turns conn0)"
    by (simp add: eleven_turns_entries length_concat sum_list_replicate)
  show ?thesis
    using history_retention[OF a b c d] .
qed

end
